theory Spec2Isabelle
  imports Main "HOL-Library.Word"
begin

section \<open>The code writer (src/lang/codewriter.c)\<close>

text \<open>
  The header codewriter.h and bytecodes.h are not part of the sources at hand, so the
  three facts the code takes from them are parameters of the model:
  \<^item> \<open>wc_size\<close>, the number of bytes of a wide operand (\<open>sizeof(t_wc)\<close>);
  \<^item> \<open>li_signed\<close>, whether \<open>writer->li\<close> has a signed type, so that the test
    \<open>label < writer->li\<close> of the slot search compares two signed integers; with an
    unsigned \<open>li\<close> the C conversions turn \<open>label = -1\<close> into the largest unsigned
    value and the test fails at once;
  \<^item> the capacity of the array \<open>labels\<close>, which the code never reads: it only
    appears in the statements about array bounds.
\<close>

record cw_types =
  wc_size :: nat
  li_signed :: bool

type_synonym t_bc = "8 word"

text \<open>
  Modelled from the spec: the type \<open>any\<close> of core/any.h is missing; section 3 of the
  spec gives its variants (nil, small int, char, pointer to a heap object).
\<close>

datatype any = Any_Nil | Any_Int int | Any_Char char | Any_Ptr nat

record label =
  loc :: int
  target :: int

text \<open>
  \<open>struct codewriter\<close>. The two arrays reached through pointers are modelled as the
  memory the pointer addresses, indexed by the integer offset the C code computes:
  \<open>bytecodes\<close> is valid below \<open>alloc\<close>, \<open>labels\<close> between 0 and the capacity of the
  table. C does not check an index, so an access outside these bounds reads or
  writes the neighbouring entry of the same function; no statement below depends on
  what such an entry holds unless it says so. Fresh memory is modelled as zero bytes.
  \<open>resize_plan\<close> lists the outcomes of the forthcoming calls of \<open>memory_alloc\<close> in
  \<open>codewriter_resize\<close> (True: a buffer is returned); when the list is used up every
  further call succeeds. \<open>max_locals\<close> is an \<open>unsigned int\<close>, as the parameter of
  \<open>codewriter_report_locals\<close> is. The label counter and the label fields are
  mathematical integers: the table overruns long before an \<open>int\<close> does.
\<close>

record codewriter =
  raven :: nat
  max_locals :: "32 word"
  varargs :: bool
  alloc :: nat
  fill :: nat
  bytecodes :: "int \<Rightarrow> t_bc"
  ci :: nat
  constants :: "nat \<Rightarrow> any"
  li :: int
  labels :: "int \<Rightarrow> label"
  resize_plan :: "bool list"

text \<open>
  Modelled from the spec: \<open>function_new\<close> (core/objects/function.c) is missing;
  section 3 of the spec lists the fields of a function, and the call in
  \<open>codewriter_finish\<close> fixes the order of the arguments.
\<close>

record function_obj =
  fn_raven :: nat
  fn_max_locals :: "32 word"
  fn_varargs :: bool
  fn_length :: nat
  fn_bytecodes :: "int \<Rightarrow> t_bc"
  fn_constant_count :: nat
  fn_constants :: "nat \<Rightarrow> any"

definition function_new ::
  "nat \<Rightarrow> 32 word \<Rightarrow> bool \<Rightarrow> nat \<Rightarrow> (int \<Rightarrow> t_bc) \<Rightarrow> nat \<Rightarrow> (nat \<Rightarrow> any) \<Rightarrow> function_obj" where
  "function_new rv locals va len bc n cs =
     \<lparr>fn_raven = rv, fn_max_locals = locals, fn_varargs = va, fn_length = len,
      fn_bytecodes = bc, fn_constant_count = n, fn_constants = cs\<rparr>"

text \<open>
  \<open>codewriter_create\<close> assigns the fields below and leaves the arrays \<open>constants\<close>
  and \<open>labels\<close> of the struct it is given as they are. The source does not test the
  buffer \<open>memory_alloc\<close> returns here; the model takes it to be a buffer.
\<close>

definition codewriter_create :: "codewriter \<Rightarrow> nat \<Rightarrow> codewriter" where
  "codewriter_create writer rv =
     writer\<lparr>raven := rv, max_locals := 0, varargs := False, alloc := 128, fill := 0,
            bytecodes := (\<lambda>_. 0), ci := 0, li := 0\<rparr>"

definition codewriter_finish :: "codewriter \<Rightarrow> function_obj" where
  "codewriter_finish writer =
     function_new (raven writer) (max_locals writer + 1) (varargs writer) (fill writer)
       (bytecodes writer) (ci writer) (constants writer)"

definition codewriter_report_locals :: "codewriter \<Rightarrow> 32 word \<Rightarrow> codewriter" where
  "codewriter_report_locals writer locals =
     (if locals > max_locals writer then writer\<lparr>max_locals := locals\<rparr> else writer)"

definition codewriter_enable_varargs :: "codewriter \<Rightarrow> codewriter" where
  "codewriter_enable_varargs writer = writer\<lparr>varargs := True\<rparr>"

text \<open>
  \<open>codewriter_resize\<close>: the new buffer holds the first \<open>fill\<close> bytes of the old one.
  A failed allocation leaves the writer as it was.
\<close>

definition memory_alloc_ok :: "codewriter \<Rightarrow> bool" where
  "memory_alloc_ok writer = (case resize_plan writer of [] \<Rightarrow> True | ok # _ \<Rightarrow> ok)"

definition codewriter_resize :: "codewriter \<Rightarrow> bool \<times> codewriter" where
  "codewriter_resize writer =
     (let ok = memory_alloc_ok writer;
          w = writer\<lparr>resize_plan := tl (resize_plan writer)\<rparr>
      in if \<not> ok then (False, w)
         else (True, w\<lparr>alloc := alloc writer * 2,
                        bytecodes := (\<lambda>i. if 0 \<le> i \<and> i < int (fill writer)
                                            then bytecodes writer i else 0)\<rparr>))"

definition codewriter_write :: "codewriter \<Rightarrow> t_bc \<Rightarrow> codewriter" where
  "codewriter_write writer bc =
     (let (ok, w) = (if fill writer \<ge> alloc writer then codewriter_resize writer
                     else (True, writer))
      in if \<not> ok then w
         else w\<lparr>bytecodes := (bytecodes w)(int (fill w) := bc), fill := fill w + 1\<rparr>)"

text \<open>
  A wide operand is stored as \<open>wc_size\<close> bytes at the offset, least significant byte
  first; the conversion to \<open>t_wc\<close> keeps the low \<open>8 * wc_size\<close> bits. (The source
  stores through a \<open>t_wc*\<close>, so the byte order is the host's; the statements below
  only read an operand back from where it was stored.)
\<close>

primrec store_wc :: "nat \<Rightarrow> (int \<Rightarrow> t_bc) \<Rightarrow> int \<Rightarrow> int \<Rightarrow> (int \<Rightarrow> t_bc)" where
  "store_wc 0 m off v = m"
| "store_wc (Suc n) m off v = (store_wc n m off v)(off + int n := word_of_int (v div 256 ^ n))"



definition codewriter_write_wc :: "cw_types \<Rightarrow> codewriter \<Rightarrow> int \<Rightarrow> codewriter" where
  "codewriter_write_wc T writer wc =
     (let (ok, w) = (if fill writer + wc_size T - 1 \<ge> alloc writer
                     then codewriter_resize writer else (True, writer))
      in if \<not> ok then w
         else w\<lparr>bytecodes := store_wc (wc_size T) (bytecodes w) (int (fill w)) wc,
                fill := fill w + wc_size T\<rparr>)"

definition codewriter_write_constant :: "cw_types \<Rightarrow> codewriter \<Rightarrow> any \<Rightarrow> int \<times> codewriter" where
  "codewriter_write_constant T writer c =
     (let w = codewriter_write_wc T writer (int (ci writer));
          w' = w\<lparr>constants := (constants w)(ci w := c), ci := ci w + 1\<rparr>
      in (int (ci w') - 1, w'))"

text \<open>
  \<open>codewriter_find_label_slot\<close>. The loop starts at \<open>label = -1\<close>; with a signed
  \<open>li\<close> it reads \<open>labels[-1]\<close> first.
\<close>

function find_label_slot_from :: "codewriter \<Rightarrow> int \<Rightarrow> int option" where
  "find_label_slot_from writer label =
     (if label < li writer
      then (if loc (labels writer label) = -1 then Some label
            else find_label_slot_from writer (label + 1))
      else None)"
  by pat_completeness auto
termination
  by (relation "measure (\<lambda>(writer, label). nat (li writer - label))") auto

declare find_label_slot_from.simps [simp del]

definition codewriter_find_label_slot :: "cw_types \<Rightarrow> codewriter \<Rightarrow> int \<times> codewriter" where
  "codewriter_find_label_slot T writer =
     (case (if li_signed T then find_label_slot_from writer (-1) else None) of
        Some label \<Rightarrow> (label, writer)
      | None \<Rightarrow> (li writer, writer\<lparr>li := li writer + 1\<rparr>))"

definition codewriter_open_label :: "cw_types \<Rightarrow> codewriter \<Rightarrow> int \<times> codewriter" where
  "codewriter_open_label T writer =
     (let (label, w) = codewriter_find_label_slot T writer
      in if label < 0 then (label, w)
         else (label, w\<lparr>labels := (labels w)(label := \<lparr>loc = label, target = -1\<rparr>)\<rparr>))"

function place_label_from :: "cw_types \<Rightarrow> codewriter \<Rightarrow> int \<Rightarrow> int \<Rightarrow> codewriter" where
  "place_label_from T writer label i =
     (if i < li writer
      then place_label_from T
             (if loc (labels writer i) = label \<and> i \<noteq> label
              then writer\<lparr>labels := (labels writer)(i := (labels writer i)\<lparr>loc := -1\<rparr>),
                          bytecodes := store_wc (wc_size T) (bytecodes writer)
                                         (target (labels writer i)) (int (fill writer))\<rparr>
              else writer)
             label (i + 1)
      else writer)"
  by pat_completeness auto
termination
  by (relation "measure (\<lambda>(T, writer, label, i). nat (li writer - i))") auto

declare place_label_from.simps [simp del]

definition codewriter_place_label :: "cw_types \<Rightarrow> codewriter \<Rightarrow> int \<Rightarrow> codewriter" where
  "codewriter_place_label T writer label =
     (if label \<ge> 0
      then place_label_from T
             (writer\<lparr>labels := (labels writer)
                        (label := (labels writer label)\<lparr>target := int (fill writer)\<rparr>)\<rparr>)
             label 0
      else writer)"

definition codewriter_close_label :: "codewriter \<Rightarrow> int \<Rightarrow> codewriter" where
  "codewriter_close_label writer label =
     (if label \<ge> 0 \<and> label < li writer
      then writer\<lparr>labels := (labels writer)(label := (labels writer label)\<lparr>loc := -1\<rparr>)\<rparr>
      else writer)"

definition codewriter_write_cwl :: "cw_types \<Rightarrow> codewriter \<Rightarrow> int \<Rightarrow> codewriter" where
  "codewriter_write_cwl T writer label =
     (if label \<ge> 0 \<and> label < li writer \<and> target (labels writer label) \<ge> 0
      then codewriter_write_wc T writer (target (labels writer label))
      else (let (i, w) = codewriter_find_label_slot T writer
            in if i < 0 then codewriter_write_wc T w (-1)
               else codewriter_write_wc T
                      (w\<lparr>labels := (labels w)(i := \<lparr>loc = label, target = int (fill w)\<rparr>)\<rparr>) 0))"

text \<open>
  The opcodes of bytecodes.h are missing, so each emission takes the opcode byte it
  writes as an argument; \<open>codewriter_jump\<close>, \<open>codewriter_jump_if\<close> and
  \<open>codewriter_jump_if_not\<close> are \<open>codewriter_jump_op\<close> at the bytes of
  \<open>RAVEN_BYTECODE_JUMP\<close>, \<open>RAVEN_BYTECODE_JUMP_IF\<close> and \<open>RAVEN_BYTECODE_JUMP_IF_NOT\<close>.
\<close>

definition codewriter_jump_op :: "cw_types \<Rightarrow> t_bc \<Rightarrow> codewriter \<Rightarrow> int \<Rightarrow> codewriter" where
  "codewriter_jump_op T opcode writer label =
     codewriter_write_cwl T (codewriter_write writer opcode) label"

record opcodes =
  RAVEN_BYTECODE_JUMP :: t_bc
  RAVEN_BYTECODE_JUMP_IF :: t_bc
  RAVEN_BYTECODE_JUMP_IF_NOT :: t_bc

definition codewriter_jump :: "cw_types \<Rightarrow> opcodes \<Rightarrow> codewriter \<Rightarrow> int \<Rightarrow> codewriter" where
  "codewriter_jump T B writer label = codewriter_jump_op T (RAVEN_BYTECODE_JUMP B) writer label"

definition codewriter_jump_if :: "cw_types \<Rightarrow> opcodes \<Rightarrow> codewriter \<Rightarrow> int \<Rightarrow> codewriter" where
  "codewriter_jump_if T B writer label =
     codewriter_jump_op T (RAVEN_BYTECODE_JUMP_IF B) writer label"

definition codewriter_jump_if_not :: "cw_types \<Rightarrow> opcodes \<Rightarrow> codewriter \<Rightarrow> int \<Rightarrow> codewriter" where
  "codewriter_jump_if_not T B writer label =
     codewriter_jump_op T (RAVEN_BYTECODE_JUMP_IF_NOT B) writer label"

text \<open>
  A use of the code writer is a sequence of calls. Every emission of the source is
  \<open>codewriter_write\<close>, \<open>codewriter_write_wc\<close> and \<open>codewriter_write_constant\<close> in some
  order (\<open>codewriter_load_const\<close> is an opcode byte and a constant, \<open>codewriter_send\<close>
  an opcode byte, a constant and a wide operand, and so on), or a jump.
\<close>

datatype cw_call =
    Report_locals "32 word"
  | Enable_varargs
  | Write t_bc
  | Write_wc int
  | Write_constant any
  | Open_label
  | Place_label int
  | Close_label int
  | Jump t_bc int

fun cw_step :: "cw_types \<Rightarrow> codewriter \<Rightarrow> cw_call \<Rightarrow> codewriter" where
  "cw_step T w (Report_locals n) = codewriter_report_locals w n"
| "cw_step T w Enable_varargs = codewriter_enable_varargs w"
| "cw_step T w (Write bc) = codewriter_write w bc"
| "cw_step T w (Write_wc wc) = codewriter_write_wc T w wc"
| "cw_step T w (Write_constant c) = snd (codewriter_write_constant T w c)"
| "cw_step T w Open_label = snd (codewriter_open_label T w)"
| "cw_step T w (Place_label l) = codewriter_place_label T w l"
| "cw_step T w (Close_label l) = codewriter_close_label w l"
| "cw_step T w (Jump opcode l) = codewriter_jump_op T opcode w l"

definition cw_calls :: "cw_types \<Rightarrow> codewriter \<Rightarrow> cw_call list \<Rightarrow> codewriter" where
  "cw_calls T w cs = foldl (cw_step T) w cs"

fun reported_locals :: "cw_call list \<Rightarrow> 32 word list" where
  "reported_locals [] = []"
| "reported_locals (Report_locals n # cs) = n # reported_locals cs"
| "reported_locals (_ # cs) = reported_locals cs"


text \<open>
  The pending patch sites of a label: the entries of the table, other than the
  label's own, whose \<open>loc\<close> is the label. \<open>wc_apart n t t'\<close>: two wide operands at
  the offsets \<open>t\<close> and \<open>t'\<close> are the same operand or do not overlap.
\<close>

definition patch_sites :: "codewriter \<Rightarrow> int \<Rightarrow> int list" where
  "patch_sites w l = filter (\<lambda>i. loc (labels w i) = l \<and> i \<noteq> l) [0..li w - 1]"


text \<open>
  The entries of the table in use: those below \<open>li\<close> whose \<open>loc\<close> is not negative.
\<close>

definition used_label_slots :: "codewriter \<Rightarrow> int list" where
  "used_label_slots w = filter (\<lambda>i. 0 \<le> loc (labels w i)) [0..li w - 1]"

text \<open>
  The label protocol a caller is meant to follow, read along the calls it makes;
  \<open>opened\<close> lists the labels \<open>codewriter_open_label\<close> has handed out and that are
  not closed yet. Jumps, \<open>codewriter_place_label\<close> and \<open>codewriter_close_label\<close> are
  given open labels only; a label is closed only when no patch site is pending for
  it; at the end every label has been closed.
\<close>

fun cw_disciplined :: "cw_types \<Rightarrow> int list \<Rightarrow> codewriter \<Rightarrow> cw_call list \<Rightarrow> bool" where
  "cw_disciplined T opened w [] = (opened = [])"
| "cw_disciplined T opened w (Open_label # cs) =
     cw_disciplined T
       (if 0 \<le> fst (codewriter_open_label T w)
        then fst (codewriter_open_label T w) # opened else opened)
       (snd (codewriter_open_label T w)) cs"
| "cw_disciplined T opened w (Place_label l # cs) =
     (l \<in> set opened \<and> cw_disciplined T opened (codewriter_place_label T w l) cs)"
| "cw_disciplined T opened w (Close_label l # cs) =
     (l \<in> set opened \<and> patch_sites w l = []
      \<and> cw_disciplined T (removeAll l opened) (codewriter_close_label w l) cs)"
| "cw_disciplined T opened w (Jump opcode l # cs) =
     (l \<in> set opened \<and> cw_disciplined T opened (codewriter_jump_op T opcode w l) cs)"
| "cw_disciplined T opened w (c # cs) = cw_disciplined T opened (cw_step T w c) cs"

text \<open>
  The invariant behind the protocol: every open label owns its entry, and every entry
  in use is an open label's own or a patch site waiting for an open label.
\<close>

definition labels_inv :: "int list \<Rightarrow> codewriter \<Rightarrow> bool" where
  "labels_inv opened w =
     (0 \<le> li w
      \<and> (\<forall>l \<in> set opened. 0 \<le> l \<and> l < li w \<and> loc (labels w l) = l)
      \<and> (\<forall>i. 0 \<le> i \<and> i < li w \<longrightarrow> loc (labels w i) = -1 \<or> loc (labels w i) \<in> set opened))"
section \<open>The virtual file system (src/fs/file.c)\<close>

text \<open>
  A \<open>struct file*\<close> is an address or \<open>NULL\<close> (\<open>None\<close>). A \<open>struct file**\<close>, as in the
  field \<open>prev\<close> and the variable \<open>ptr\<close> of \<open>file_unlink\<close>, is the location of a pointer:
  \<open>&fs->files\<close>, \<open>&f->next\<close> or \<open>&f->children\<close>.
\<close>

type_synonym addr = nat

datatype link = Fs_files | Next_of addr | Children_of addr

text \<open>
  \<open>struct file\<close>, here \<open>file_t\<close> (file.h is missing; the fields are those file.c assigns). Blueprints
  and objects live in the collector's heap and are known by their address there. The
  field \<open>fs\<close> is left out: the model has one file system, the record below.
\<close>

record file_t =
  f_next :: "addr option"
  f_prev :: link
  f_parent :: "addr option"
  f_sibling :: "addr option"
  f_children :: "addr option"
  f_blueprint :: "nat option"
  f_object :: "nat option"
  f_name :: string

text \<open>
  \<open>struct filesystem\<close> with the memory it points into (filesystem.h is missing:
  \<open>fs->files\<close> is used by file.c, \<open>filesystem_root\<close> and \<open>filesystem_anchor\<close> are read
  as fields). \<open>heap\<close> is the memory of the file nodes, by address; \<open>live\<close> holds the
  addresses \<open>memory_alloc\<close> has returned and \<open>memory_free\<close> has not taken back. C reads
  a freed node without complaint, and so does the model: it finds what the node
  held. \<open>brk\<close> is the next address \<open>memory_alloc\<close> hands out, and \<open>mem_junk\<close> what a
  fresh block holds before it is assigned. \<open>mem_plan\<close> lists the outcomes of the
  forthcoming allocations (True: memory is returned); when it is used up every
  further one succeeds. \<open>gc_brk\<close> is the next address in the collector's heap, and
  \<open>fs_log\<close> the lines written with \<open>log_printf\<close>.
\<close>

record filesystem =
  fs_files :: "addr option"
  fs_root :: "addr option"
  fs_anchor :: string
  heap :: "addr \<Rightarrow> file_t"
  live :: "addr set"
  brk :: addr
  mem_junk :: file_t
  mem_plan :: "bool list"
  gc_brk :: nat
  fs_log :: "string list"

definition alloc_ok :: "filesystem \<Rightarrow> bool" where
  "alloc_ok s = (case mem_plan s of [] \<Rightarrow> True | ok # _ \<Rightarrow> ok)"

definition memory_alloc :: "filesystem \<Rightarrow> addr option \<times> filesystem" where
  "memory_alloc s =
     (if alloc_ok s
      then (Some (brk s), s\<lparr>heap := (heap s)(brk s := mem_junk s), live := insert (brk s) (live s),
                             brk := brk s + 1, mem_plan := tl (mem_plan s)\<rparr>)
      else (None, s\<lparr>mem_plan := tl (mem_plan s)\<rparr>))"

definition memory_free :: "filesystem \<Rightarrow> addr \<Rightarrow> filesystem" where
  "memory_free s a = s\<lparr>live := live s - {a}\<rparr>"

definition read_link :: "filesystem \<Rightarrow> link \<Rightarrow> addr option" where
  "read_link s l =
     (case l of Fs_files \<Rightarrow> fs_files s
      | Next_of a \<Rightarrow> f_next (heap s a)
      | Children_of a \<Rightarrow> f_children (heap s a))"

definition write_link :: "filesystem \<Rightarrow> link \<Rightarrow> addr option \<Rightarrow> filesystem" where
  "write_link s l v =
     (case l of Fs_files \<Rightarrow> s\<lparr>fs_files := v\<rparr>
      | Next_of a \<Rightarrow> s\<lparr>heap := (heap s)(a := (heap s a)\<lparr>f_next := v\<rparr>)\<rparr>
      | Children_of a \<Rightarrow> s\<lparr>heap := (heap s)(a := (heap s a)\<lparr>f_children := v\<rparr>)\<rparr>)"

text \<open>
  \<open>file_new\<close>. The new node goes to the front of the list of all files and, when it
  has a parent, to the front of the parent's children. Without a parent the field
  \<open>sibling\<close> is not assigned and keeps what the block held.
\<close>

definition file_new :: "filesystem \<Rightarrow> addr option \<Rightarrow> string \<Rightarrow> addr option \<times> filesystem" where
  "file_new s parent name =
     (case memory_alloc s of
        (None, s1) \<Rightarrow> (None, s1)
      | (Some file, s1) \<Rightarrow>
          (let s2 = (case fs_files s1 of
                       None \<Rightarrow> s1
                     | Some first \<Rightarrow>
                         s1\<lparr>heap := (heap s1)(first := (heap s1 first)\<lparr>f_prev := Next_of file\<rparr>)\<rparr>);
               s3 = s2\<lparr>heap := (heap s2)(file := (heap s2 file)
                           \<lparr>f_next := fs_files s2, f_prev := Fs_files, f_parent := parent\<rparr>),
                       fs_files := Some file\<rparr>;
               s4 = (case parent of
                       None \<Rightarrow> s3
                     | Some p \<Rightarrow>
                         s3\<lparr>heap := (heap s3)
                              (file := (heap s3 file)\<lparr>f_sibling := f_children (heap s3 p)\<rparr>,
                               p := (heap s3 p)\<lparr>f_children := Some file\<rparr>)\<rparr>)
           in (Some file,
               s4\<lparr>heap := (heap s4)(file := (heap s4 file)
                       \<lparr>f_children := None, f_blueprint := None, f_object := None,
                        f_name := name\<rparr>)\<rparr>)))"

text \<open>
  \<open>file_unlink\<close>. The loop walks from \<open>&parent->children\<close> and moves on with
  \<open>ptr = &((*ptr)->next)\<close>. A chain of pointers in memory can be a cycle, so the loops
  and recursions over the heap take a bound on their steps and return \<open>None\<close> when it
  is used up.
\<close>

fun unlink_loop :: "nat \<Rightarrow> filesystem \<Rightarrow> link \<Rightarrow> addr \<Rightarrow> filesystem option" where
  "unlink_loop 0 s ptr file = None"
| "unlink_loop (Suc k) s ptr file =
     (case read_link s ptr of
        None \<Rightarrow> Some s
      | Some x \<Rightarrow>
          if x = file then Some (write_link s ptr (f_sibling (heap s file)))
          else unlink_loop k s (Next_of x) file)"

definition file_unlink :: "nat \<Rightarrow> filesystem \<Rightarrow> addr \<Rightarrow> filesystem option" where
  "file_unlink k s file =
     (case f_parent (heap s file) of
        None \<Rightarrow> Some s
      | Some p \<Rightarrow> unlink_loop k s (Children_of p) file)"

fun file_delete :: "nat \<Rightarrow> filesystem \<Rightarrow> addr \<Rightarrow> filesystem option" where
  "file_delete 0 s file = None"
| "file_delete (Suc k) s file =
     (case f_children (heap s file) of
        Some child \<Rightarrow>
          (case file_delete k s child of
             None \<Rightarrow> None
           | Some s' \<Rightarrow> file_delete k s' file)
      | None \<Rightarrow>
          (case file_unlink k s file of
             None \<Rightarrow> None
           | Some s1 \<Rightarrow>
               (let s2 = (case f_next (heap s1 file) of
                            None \<Rightarrow> s1
                          | Some n \<Rightarrow>
                              s1\<lparr>heap := (heap s1)
                                   (n := (heap s1 n)\<lparr>f_prev := f_prev (heap s1 file)\<rparr>)\<rparr>);
                    s3 = write_link s2 (f_prev (heap s2 file)) (f_next (heap s2 file))
                in Some (memory_free s3 file))))"

text \<open>
  \<open>file_namecmp(path, fname)\<close>. A C string is the list of its characters before the
  terminating zero, and \<open>&name[i]\<close> is the list without its first \<open>i\<close> characters.
\<close>

fun file_namecmp :: "string \<Rightarrow> string \<Rightarrow> bool" where
  "file_namecmp path [] = (case path of [] \<Rightarrow> True | c # _ \<Rightarrow> c = CHR ''/'')"
| "file_namecmp [] (f # fname) = False"
| "file_namecmp (p # path) (f # fname) = (if f \<noteq> p then False else file_namecmp path fname)"

fun find_child :: "nat \<Rightarrow> (addr \<Rightarrow> file_t) \<Rightarrow> addr option \<Rightarrow> string \<Rightarrow> addr option option" where
  "find_child k h None name = Some None"
| "find_child 0 h (Some f) name = None"
| "find_child (Suc k) h (Some f) name =
     (if file_namecmp name (f_name (h f)) then Some (Some f)
      else find_child k h (f_sibling (h f)) name)"

definition file_resolve1 :: "nat \<Rightarrow> filesystem \<Rightarrow> addr \<Rightarrow> string \<Rightarrow> addr option option" where
  "file_resolve1 k s file name =
     (if file_namecmp name ''..'' then Some (f_parent (heap s file))
      else if file_namecmp name ''.'' then Some (Some file)
      else find_child k (heap s) (f_children (heap s file)) name)"

text \<open>
  The inner loop of \<open>file_resolve\<close> moves \<open>i\<close> behind the next \<open>/\<close>, or to the end.
\<close>

fun skip_component :: "string \<Rightarrow> string" where
  "skip_component [] = []"
| "skip_component (c # name) = (if c = CHR ''/'' then name else skip_component name)"

function resolve_loop :: "nat \<Rightarrow> filesystem \<Rightarrow> addr option \<Rightarrow> string \<Rightarrow> addr option option" where
  "resolve_loop k s file name =
     (case file of
        None \<Rightarrow> Some None
      | Some f \<Rightarrow>
          if name = [] then Some (Some f)
          else (case file_resolve1 k s f name of
                  None \<Rightarrow> None
                | Some file' \<Rightarrow> resolve_loop k s file' (skip_component name)))"
  by pat_completeness auto
termination
proof (relation "measure (\<lambda>(k, s, file, name). length name)")
  show "wf (measure (\<lambda>(k, s, file, name). length name))" by simp
next
  fix k :: nat and s :: filesystem and fl :: "addr option" and name :: string
    and f :: addr and fl' :: "addr option"
  have le: "length (skip_component n) \<le> length n" for n
    by (induction n) auto
  assume "name \<noteq> []"
  then obtain c cs where "name = c # cs" by (cases name) auto
  then have "length (skip_component name) < length name"
    using le [of cs] by auto
  then show "((k, s, fl', skip_component name), (k, s, fl, name))
               \<in> measure (\<lambda>(k, s, file, name). length name)"
    by simp
qed

declare resolve_loop.simps [simp del]

text \<open>
  \<open>file_resolve\<close>. A leading \<open>/\<close> calls \<open>file_fs(file)\<close>, which reads the node: the
  result is \<open>None\<close> for a call that dereferences \<open>NULL\<close> there or runs out of steps,
  and \<open>Some\<close> of the pointer returned otherwise (\<open>Some None\<close> is nil).
\<close>

fun file_resolve :: "nat \<Rightarrow> filesystem \<Rightarrow> addr option \<Rightarrow> string \<Rightarrow> addr option option" where
  "file_resolve k s file [] = resolve_loop k s file []"
| "file_resolve k s file (c # name) =
     (if c = CHR ''/''
      then (case file of None \<Rightarrow> None | Some _ \<Rightarrow> file_resolve k s (fs_root s) name)
      else resolve_loop k s file (c # name))"

text \<open>
  \<open>file_write_path\<close> appends to the string builder; it returns true on every path,
  so the model returns the builder's content. The string builder
  (util/stringbuilder.h) is missing. \<open>file_path\<close> and \<open>file_open\<close> use the string
  \<open>stringbuilder_get\<close> hands them without a test, and the model takes it to be the
  string that was built.
\<close>

fun file_write_path :: "nat \<Rightarrow> (addr \<Rightarrow> file_t) \<Rightarrow> addr \<Rightarrow> string \<Rightarrow> string option" where
  "file_write_path 0 h file sb = None"
| "file_write_path (Suc k) h file sb =
     (case f_parent (h file) of
        Some p \<Rightarrow>
          (case file_write_path k h p sb of
             None \<Rightarrow> None
           | Some sb' \<Rightarrow> Some (sb' @ ''/'' @ f_name (h file)))
      | None \<Rightarrow> Some (sb @ f_name (h file)))"


subsection \<open>Blueprints and objects of a node\<close>

text \<open>
  What lies outside file.c is a parameter of the model: \<open>host_file\<close> gives the
  content of the host file at a real path, or \<open>None\<close> when \<open>fopen\<close> fails;
  \<open>parsepile_file\<close> (lang/parsepiler.c, missing) is the result of compiling a source
  text into the blueprint it is given. The parser is taken not to touch the file
  nodes.
\<close>

record host_env =
  host_file :: "string \<Rightarrow> string option"
  parsepile_file :: "string \<Rightarrow> nat option \<Rightarrow> bool"

text \<open>
  Modelled from the spec: \<open>blueprint_new\<close> and \<open>object_new\<close> (core/, missing) allocate
  in the collector's heap; section 4.B: allocator exhaustion returns nil.
\<close>

definition gc_alloc :: "filesystem \<Rightarrow> nat option \<times> filesystem" where
  "gc_alloc s =
     (if alloc_ok s
      then (Some (gc_brk s), s\<lparr>gc_brk := gc_brk s + 1, mem_plan := tl (mem_plan s)\<rparr>)
      else (None, s\<lparr>mem_plan := tl (mem_plan s)\<rparr>))"



text \<open>
  \<open>file_open\<close>: the real path is the anchor followed by the virtual path; the line
  of the log is written before \<open>fopen\<close>. The result is the content of the file, if
  it could be opened.
\<close>

definition file_open :: "host_env \<Rightarrow> nat \<Rightarrow> filesystem \<Rightarrow> addr \<Rightarrow> (string option \<times> filesystem) option" where
  "file_open E k s file =
     (case file_write_path k (heap s) file (fs_anchor s) of
        None \<Rightarrow> None
      | Some path \<Rightarrow>
          Some (host_file E path,
                s\<lparr>fs_log := fs_log s @ [''Compiling file '' @ path @ ''...'']\<rparr>))"






subsection \<open>Loading the host directory\<close>

text \<open>
  The host's directory tree, as \<open>opendir\<close> and \<open>readdir\<close> show it: \<open>opendir\<close> fails
  on what is not a directory; a directory lists its entries, \<open>.\<close> and \<open>..\<close> among
  them, each with what is found at its path.
\<close>

datatype host_node = Host_file | Host_dir "(string \<times> host_node) list"

text \<open>
  \<open>stringbuilder_get\<close> allocates the path and may return \<open>NULL\<close>, which \<open>file_load\<close>
  tests; it takes the next outcome of the allocation plan.
\<close>

definition stringbuilder_get :: "filesystem \<Rightarrow> bool \<times> filesystem" where
  "stringbuilder_get s = (alloc_ok s, s\<lparr>mem_plan := tl (mem_plan s)\<rparr>)"

fun file_load :: "filesystem \<Rightarrow> addr \<Rightarrow> string \<Rightarrow> host_node \<Rightarrow> filesystem"
  and file_load_entries ::
    "filesystem \<Rightarrow> addr \<Rightarrow> string \<Rightarrow> (string \<times> host_node) list \<Rightarrow> filesystem" where
  "file_load s file realpath Host_file = s\<lparr>fs_log := fs_log s @ [''Loading '' @ realpath @ ''...'']\<rparr>"
| "file_load s file realpath (Host_dir entries) =
     file_load_entries (s\<lparr>fs_log := fs_log s @ [''Loading '' @ realpath @ ''...'']\<rparr>)
       file realpath entries"
| "file_load_entries s file realpath [] = s"
| "file_load_entries s file realpath ((d_name, sub) # entries) =
     file_load_entries
       (if d_name \<noteq> ''.'' \<and> d_name \<noteq> ''..''
        then (if fst (stringbuilder_get s)
              then (case fst (file_new (snd (stringbuilder_get s)) (Some file) d_name) of
                      None \<Rightarrow> snd (file_new (snd (stringbuilder_get s)) (Some file) d_name)
                    | Some f \<Rightarrow>
                        file_load (snd (file_new (snd (stringbuilder_get s)) (Some file) d_name))
                          f (realpath @ ''/'' @ d_name) sub)
              else snd (stringbuilder_get s))
        else s)
       file realpath entries"

subsection \<open>The path grammar in the words of the specification\<close>

text \<open>
  The children of a node, in the order of its sibling chain, when the chain ends
  within \<open>k\<close> steps.
\<close>

fun sibling_chain :: "nat \<Rightarrow> (addr \<Rightarrow> file_t) \<Rightarrow> addr option \<Rightarrow> addr list option" where
  "sibling_chain k h None = Some []"
| "sibling_chain 0 h (Some a) = None"
| "sibling_chain (Suc k) h (Some a) =
     (case sibling_chain k h (f_sibling (h a)) of None \<Rightarrow> None | Some cs \<Rightarrow> Some (a # cs))"

definition children_of :: "nat \<Rightarrow> filesystem \<Rightarrow> addr \<Rightarrow> addr list" where
  "children_of k s a =
     (case sibling_chain k (heap s) (f_children (heap s a)) of None \<Rightarrow> [] | Some cs \<Rightarrow> cs)"

text \<open>
  Components are separated by \<open>/\<close>; a \<open>/\<close> ends a component, so a path that ends
  in \<open>/\<close> has no empty last component.
\<close>

function path_components :: "string \<Rightarrow> string list" where
  "path_components p =
     (if p = [] then []
      else takeWhile (\<lambda>c. c \<noteq> CHR ''/'') p
             # path_components (drop 1 (dropWhile (\<lambda>c. c \<noteq> CHR ''/'') p)))"
  by pat_completeness auto
termination
proof (relation "measure length")
  show "wf (measure length)" by simp
next
  fix p :: string
  assume "p \<noteq> []"
  then have "length (drop 1 (dropWhile (\<lambda>c. c \<noteq> CHR ''/'') p)) < length p"
    using length_dropWhile_le [of "\<lambda>c. c \<noteq> CHR ''/''" p] by (cases p) auto
  then show "(drop 1 (dropWhile (\<lambda>c. c \<noteq> CHR ''/'') p), p) \<in> measure length" by simp
qed

declare path_components.simps [simp del]

text \<open>
  One step: \<open>..\<close> is the parent, \<open>.\<close> the node itself, any other component the
  child with exactly that name (the first one in the chain, should two have it).
\<close>

definition resolve_step :: "nat \<Rightarrow> filesystem \<Rightarrow> addr \<Rightarrow> string \<Rightarrow> addr option" where
  "resolve_step k s cur nm =
     (if nm = ''..'' then f_parent (heap s cur)
      else if nm = ''.'' then Some cur
      else find (\<lambda>c. f_name (heap s c) = nm) (children_of k s cur))"

fun resolve_components :: "nat \<Rightarrow> filesystem \<Rightarrow> addr option \<Rightarrow> string list \<Rightarrow> addr option" where
  "resolve_components k s None nms = None"
| "resolve_components k s (Some f) [] = Some f"
| "resolve_components k s (Some f) (nm # nms) =
     resolve_components k s (resolve_step k s f nm) nms"

definition resolve_spec :: "nat \<Rightarrow> filesystem \<Rightarrow> addr \<Rightarrow> string \<Rightarrow> addr option" where
  "resolve_spec k s f p =
     (if p \<noteq> [] \<and> hd p = CHR ''/''
      then resolve_components k s (fs_root s)
             (path_components (dropWhile (\<lambda>c. c = CHR ''/'') p))
      else resolve_components k s (Some f) (path_components p))"

text \<open>
  A well-formed tree, with sibling chains of at most \<open>k\<close> nodes: every live node has
  a chain of live children that ends, each child points back to it as its parent
  and has a name without \<open>/\<close>, and its own parent is live or \<open>NULL\<close>.
\<close>

definition node_ok :: "nat \<Rightarrow> filesystem \<Rightarrow> addr \<Rightarrow> bool" where
  "node_ok k s a =
     ((case sibling_chain k (heap s) (f_children (heap s a)) of
         None \<Rightarrow> False
       | Some cs \<Rightarrow>
           list_all (\<lambda>c. c \<in> live s \<and> f_parent (heap s c) = Some a
                          \<and> CHR ''/'' \<notin> set (f_name (heap s c))) cs)
      \<and> (case f_parent (heap s a) of None \<Rightarrow> True | Some p \<Rightarrow> p \<in> live s))"

definition fs_ok :: "nat \<Rightarrow> filesystem \<Rightarrow> bool" where
  "fs_ok k s = (\<forall>a \<in> live s. node_ok k s a)"




subsection \<open>The invariants of the tree\<close>

text \<open>
  The names of the children of a node, in the order of its sibling chain.
\<close>

definition child_names :: "nat \<Rightarrow> filesystem \<Rightarrow> addr \<Rightarrow> string list" where
  "child_names k s a = map (\<lambda>c. f_name (heap s c)) (children_of k s a)"

text \<open>
  The three invariants of the specification: among the children of a node the
  names are pairwise distinct; no name contains \<open>/\<close>; the root has no parent and the
  empty name. They are stated for a well-formed tree, where every address handed out
  is below \<open>brk\<close>, so that a sibling chain has at most \<open>brk\<close> nodes.
\<close>

definition sibling_names_unique :: "filesystem \<Rightarrow> bool" where
  "sibling_names_unique s = (\<forall>a \<in> live s. distinct (child_names (brk s) s a))"

definition names_without_slash :: "filesystem \<Rightarrow> bool" where
  "names_without_slash s = (\<forall>a \<in> live s. CHR ''/'' \<notin> set (f_name (heap s a)))"

definition root_ok :: "filesystem \<Rightarrow> bool" where
  "root_ok s =
     (case fs_root s of
        None \<Rightarrow> True
      | Some r \<Rightarrow> r \<in> live s \<and> f_parent (heap s r) = None \<and> f_name (heap s r) = [])"

definition tree_inv :: "filesystem \<Rightarrow> bool" where
  "tree_inv s =
     (fs_ok (brk s) s \<and> (\<forall>a \<in> live s. a < brk s)
      \<and> sibling_names_unique s \<and> names_without_slash s \<and> root_ok s)"

text \<open>
  What \<open>readdir\<close> guarantees of a host directory, at every level: apart from \<open>.\<close>
  and \<open>..\<close>, the names of its entries are pairwise distinct and without \<open>/\<close>.
\<close>

definition entry_names :: "(string \<times> host_node) list \<Rightarrow> string list" where
  "entry_names entries = filter (\<lambda>n. n \<noteq> ''.'' \<and> n \<noteq> ''..'') (map fst entries)"

fun host_ok :: "host_node \<Rightarrow> bool" where
  "host_ok Host_file = True"
| "host_ok (Host_dir entries) =
     (distinct (entry_names entries)
      \<and> list_all (\<lambda>n. CHR ''/'' \<notin> set n) (entry_names entries)
      \<and> list_all (\<lambda>e. host_ok (snd e)) entries)"

fun node_names :: "host_node \<Rightarrow> string list" where
  "node_names Host_file = []"
| "node_names (Host_dir entries) = entry_names entries"

text \<open>
  What a load into the node \<open>file\<close> may change: the tree stays well formed, no
  node is lost, the other nodes keep the names of their children, and the children
  of \<open>file\<close> get names from \<open>names\<close> only.
\<close>

definition grows_under :: "filesystem \<Rightarrow> filesystem \<Rightarrow> addr \<Rightarrow> string list \<Rightarrow> bool" where
  "grows_under s s' file names =
     (tree_inv s' \<and> live s \<subseteq> live s'
      \<and> (\<forall>a \<in> live s. a \<noteq> file \<longrightarrow> child_names (brk s') s' a = child_names (brk s) s a)
      \<and> set (child_names (brk s') s' file) \<subseteq> set (child_names (brk s) s file) \<union> set names)"
section \<open>Concrete inputs\<close>

text \<open>
  A struct before \<open>codewriter_create\<close> holds whatever the memory held; \<open>cw0\<close> is one
  such content. \<open>T16\<close> is a host with two-byte wide operands and a signed \<open>li\<close>.
\<close>

definition cw0 :: codewriter where
  "cw0 = \<lparr>raven = 0, max_locals = 7, varargs = True, alloc = 0, fill = 3,
          bytecodes = (\<lambda>_. 0), ci = 0, constants = (\<lambda>_. Any_Nil), li = 5,
          labels = (\<lambda>_. \<lparr>loc = 3, target = 9\<rparr>), resize_plan = []\<rparr>"

definition T16 :: cw_types where
  "T16 = \<lparr>wc_size = 2, li_signed = True\<rparr>"







text \<open>
  A small tree: the root (address 1, with the empty name), then its children \<open>a\<close>
  (address 2) and \<open>b\<close> (address 3), created in this order by \<open>file_new\<close>, so that \<open>b\<close>
  is the first child and \<open>a\<close> its sibling. \<open>junk\<close> is what fresh memory holds.
\<close>

definition junk :: file_t where
  "junk = \<lparr>f_next = Some 7, f_prev = Next_of 7, f_parent = Some 7, f_sibling = Some 7,
           f_children = Some 7, f_blueprint = Some 7, f_object = Some 7, f_name = ''junk''\<rparr>"

definition fs0 :: filesystem where
  "fs0 = \<lparr>fs_files = None, fs_root = None, fs_anchor = ''/srv/mud'', heap = (\<lambda>_. junk),
          live = {}, brk = 1, mem_junk = junk, mem_plan = [], gc_brk = 1, fs_log = []\<rparr>"

definition fs1 :: filesystem where
  "fs1 = (snd (file_new fs0 None []))\<lparr>fs_root := fst (file_new fs0 None [])\<rparr>"

definition fs2 :: filesystem where
  "fs2 = snd (file_new fs1 (Some 1) ''a'')"

definition fs3 :: filesystem where
  "fs3 = snd (file_new fs2 (Some 1) ''b'')"

text \<open>
  The tree of the specification's scenario: \<open>/lib/std/obj\<close>, with the root at
  address 1, \<open>lib\<close> at 2, \<open>std\<close> at 3 and \<open>obj\<close> at 4.
\<close>

definition fs_lib :: filesystem where
  "fs_lib =
     snd (file_new (snd (file_new (snd (file_new fs1 (Some 1) ''lib'')) (Some 2) ''std''))
            (Some 3) ''obj'')"



text \<open>
  A host directory with the entries \<open>lib\<close> (a directory that holds \<open>std\<close>, which
  holds the file \<open>obj\<close>) and \<open>readme\<close>.
\<close>

definition host_tree :: host_node where
  "host_tree =
     Host_dir [(''.'', Host_file), (''..'', Host_file),
               (''lib'', Host_dir [(''.'', Host_file), (''..'', Host_file),
                                   (''std'', Host_dir [(''obj'', Host_file)])]),
               (''readme'', Host_file)]"

section \<open>Properties of the code writer\<close>

subsection \<open>Local slots\<close>

lemma place_label_from_max_locals [simp]:
  "max_locals (place_label_from T w l i) = max_locals w"
  by (induction T w l i rule: place_label_from.induct)
     (subst place_label_from.simps, simp)

lemma resize_max_locals [simp]: "max_locals (snd (codewriter_resize w)) = max_locals w"
  by (simp add: codewriter_resize_def Let_def)

lemma write_max_locals [simp]: "max_locals (codewriter_write w b) = max_locals w"
  by (simp add: codewriter_write_def Let_def split: prod.splits if_splits)
     (metis resize_max_locals snd_conv)

lemma write_wc_max_locals [simp]: "max_locals (codewriter_write_wc T w v) = max_locals w"
  by (simp add: codewriter_write_wc_def Let_def split: prod.splits if_splits)
     (metis resize_max_locals snd_conv)

lemma find_slot_max_locals [simp]:
  "max_locals (snd (codewriter_find_label_slot T w)) = max_locals w"
  by (simp add: codewriter_find_label_slot_def split: option.splits)

lemma cwl_max_locals [simp]: "max_locals (codewriter_write_cwl T w l) = max_locals w"
  by (simp add: codewriter_write_cwl_def Let_def split: prod.splits)
     (metis find_slot_max_locals snd_conv)

lemma cw_step_max_locals:
  "max_locals (cw_step T w c) =
     (case c of Report_locals n \<Rightarrow> max (max_locals w) n | _ \<Rightarrow> max_locals w)"
  apply (cases c)
  apply (simp_all add: codewriter_report_locals_def codewriter_enable_varargs_def
        codewriter_write_constant_def Let_def codewriter_open_label_def
        codewriter_place_label_def codewriter_close_label_def codewriter_jump_op_def
        split: prod.splits)
  apply (auto simp: max_def)
  apply (metis find_slot_max_locals snd_conv)+
  done

lemma cw_calls_max_locals_fold:
  "max_locals (cw_calls T w cs) = fold max (reported_locals cs) (max_locals w)"
proof (induction cs arbitrary: w)
  case Nil
  then show ?case by (simp add: cw_calls_def)
next
  case (Cons c cs)
  have "cw_calls T w (c # cs) = cw_calls T (cw_step T w c) cs"
    by (simp add: cw_calls_def)
  then show ?case using Cons[of "cw_step T w c"]
    by (cases c) (simp_all add: cw_step_max_locals max.commute del: cw_step.simps)
qed

lemma cw_calls_max_locals:
  "max_locals (cw_calls T w cs) = Max (set (max_locals w # reported_locals cs))"
  by (simp only: cw_calls_max_locals_fold Max.set_eq_fold)

lemma create_max_locals: "max_locals (codewriter_create w rv) = 0"
  by (simp add: codewriter_create_def)

lemma finish_max_locals: "fn_max_locals (codewriter_finish w) = max_locals w + 1"
  by (simp add: codewriter_finish_def function_new_def)

lemma report_mono: "max_locals w \<le> max_locals (codewriter_report_locals w n)"
  by (auto simp: codewriter_report_locals_def)

lemma unat_Max_word:
  fixes xs :: "32 word list"
  shows "xs \<noteq> [] \<Longrightarrow> unat (Max (set xs)) = Max (unat ` set xs)"
  by (rule mono_Max_commute) (auto simp: mono_def word_le_nat_alt)

text \<open>
  Claim C7. Whatever calls are made on a fresh code writer, the function
  \<open>codewriter_finish\<close> produces has \<open>max_locals\<close> one more than the largest count
  reported by \<open>codewriter_report_locals\<close> (one more than zero when none was
  reported): the slot 0 of \<open>self\<close> is added to the high-water mark. The sum is the
  \<open>unsigned int\<close> sum of the source; read as a natural number it is one plus the
  maximum whenever every reported count is below \<open>UINT_MAX\<close>. A call of
  \<open>codewriter_report_locals\<close> never lowers the recorded maximum.
\<close>

theorem codewriter_finish_max_locals:
  "fn_max_locals (codewriter_finish (cw_calls T (codewriter_create w0 rv) cs))
     = 1 + Max (set (0 # reported_locals cs))
   \<and> ((\<forall>n \<in> set (reported_locals cs). unat n < 2 ^ 32 - 1) \<longrightarrow>
        unat (fn_max_locals (codewriter_finish (cw_calls T (codewriter_create w0 rv) cs)))
          = 1 + Max (set (0 # map unat (reported_locals cs))))
   \<and> max_locals w \<le> max_locals (codewriter_report_locals w n)"
proof (intro conjI impI)
  let ?f = "codewriter_finish (cw_calls T (codewriter_create w0 rv) cs)"
  let ?xs = "0 # reported_locals cs"
  show a: "fn_max_locals ?f = 1 + Max (set ?xs)"
    by (simp only: finish_max_locals cw_calls_max_locals create_max_locals add.commute)
  show "max_locals w \<le> max_locals (codewriter_report_locals w n)" by (rule report_mono)
  assume h: "\<forall>n \<in> set (reported_locals cs). unat n < 2 ^ 32 - 1"
  have m: "unat (Max (set ?xs)) = Max (unat ` set ?xs)"
    by (rule unat_Max_word) simp
  have "Max (set ?xs) \<in> set ?xs" by (rule Max_in) simp_all
  then have "unat (Max (set ?xs)) < 2 ^ 32 - 1" using h by auto
  then have "unat (1 + Max (set ?xs)) = 1 + unat (Max (set ?xs))"
    by (simp add: unat_word_ariths)
  then show "unat (fn_max_locals ?f) = 1 + Max (set (0 # map unat (reported_locals cs)))"
    using a m by simp
qed

theorem codewriter_finish_max_locals_witness:
  "list_all (\<lambda>n. unat n < 2 ^ 32 - 1)
     (reported_locals [Report_locals 2, Write 1, Report_locals 5, Report_locals 3])
   \<and> unat (fn_max_locals (codewriter_finish (cw_calls T16 (codewriter_create cw0 0)
        [Report_locals 2, Write 1, Report_locals 5, Report_locals 3]))) = 6"
  using codewriter_finish_max_locals
    [of T16 cw0 0 "[Report_locals 2, Write 1, Report_locals 5, Report_locals 3]"]
  by simp

subsection \<open>Bounds of the label table\<close>

lemma find_slot_unsigned:
  "\<not> li_signed T \<Longrightarrow> codewriter_find_label_slot T w = (li w, w\<lparr>li := li w + 1\<rparr>)"
  by (simp add: codewriter_find_label_slot_def)

lemma open_label_unsigned:
  "\<not> li_signed T \<Longrightarrow> 0 \<le> li w \<Longrightarrow>
   codewriter_open_label T w =
     (li w, w\<lparr>li := li w + 1, labels := (labels w)(li w := \<lparr>loc = li w, target = -1\<rparr>)\<rparr>)"
  by (simp add: codewriter_open_label_def find_slot_unsigned)

lemma cw_calls_snoc: "cw_calls T w (cs @ [c]) = cw_step T (cw_calls T w cs) c"
  by (simp add: cw_calls_def)

lemma opens_unsigned_li:
  "\<not> li_signed T \<Longrightarrow> 0 \<le> li w \<Longrightarrow>
   li (cw_calls T w (replicate n Open_label)) = li w + int n"
proof (induction n)
  case 0
  then show ?case by (simp add: cw_calls_def)
next
  case (Suc n)
  have "replicate (Suc n) Open_label = replicate n Open_label @ [Open_label]"
    by (simp add: replicate_append_same)
  then show ?case using Suc
    by (simp add: cw_calls_snoc open_label_unsigned del: replicate.simps)
qed

lemma opens_unsigned_overrun:
  assumes "\<not> li_signed T"
  shows "labels (cw_calls T (codewriter_create w rv) (replicate (Suc c) Open_label)) (int c)
           = \<lparr>loc = int c, target = -1\<rparr>"
proof -
  let ?w = "cw_calls T (codewriter_create w rv) (replicate c Open_label)"
  have l: "li ?w = int c"
    using opens_unsigned_li [OF assms, of "codewriter_create w rv" c]
    by (simp add: codewriter_create_def)
  have "replicate (Suc c) Open_label = replicate c Open_label @ [Open_label]"
    by (simp add: replicate_append_same)
  then show ?thesis using l assms
    by (simp add: cw_calls_snoc open_label_unsigned del: replicate.simps)
qed

lemma open_label_signed_fresh:
  assumes "li_signed T"
  shows "fst (codewriter_open_label T (codewriter_create w rv))
           = (if loc (labels w (-1)) = -1 then -1 else 0)"
proof -
  let ?w = "codewriter_create w rv"
  have a: "li ?w = 0" "labels ?w = labels w" by (simp_all add: codewriter_create_def)
  have "find_label_slot_from ?w (-1)
          = (if loc (labels w (-1)) = -1 then Some (-1) else None)"
    by (subst find_label_slot_from.simps, subst find_label_slot_from.simps) (simp add: a)
  then show ?thesis using assms
    by (simp add: codewriter_open_label_def codewriter_find_label_slot_def a)
qed

text \<open>
  Claim C9, which the code breaks. On a fresh code writer, with a signed \<open>li\<close>, the
  handle \<open>codewriter_open_label\<close> returns is decided by \<open>labels[-1].loc\<close>, the entry
  before the table, which the slot search reads first. And with an unsigned \<open>li\<close>
  the search never runs, so that every call takes the next entry: the call number
  \<open>c + 1\<close> writes \<open>labels[c]\<close>, the entry after a table of \<open>c\<close> entries, whatever \<open>c\<close> is.
\<close>

theorem codewriter_label_access_out_of_bounds:
  "fst (codewriter_open_label \<lparr>wc_size = k, li_signed = True\<rparr> (codewriter_create w rv))
     = (if loc (labels w (-1)) = -1 then -1 else 0)
   \<and> labels (cw_calls \<lparr>wc_size = k, li_signed = False\<rparr> (codewriter_create w rv)
              (replicate (Suc c) Open_label)) (int c)
     = \<lparr>loc = int c, target = -1\<rparr>"
  by (simp add: open_label_signed_fresh opens_unsigned_overrun del: replicate.simps)

subsection \<open>Wide operands in memory\<close>






subsection \<open>Emissions when no allocation fails\<close>






subsection \<open>Placing a label\<close>

lemma place_from_li [simp]: "li (place_label_from T w l i) = li w"
  by (induction T w l i rule: place_label_from.induct)
     (subst place_label_from.simps, simp)

lemma place_from_fill [simp]: "fill (place_label_from T w l i) = fill w"
  by (induction T w l i rule: place_label_from.induct)
     (subst place_label_from.simps, simp)

lemma place_from_labels:
  "labels (place_label_from T w l i) j =
     (if i \<le> j \<and> j < li w \<and> loc (labels w j) = l \<and> j \<noteq> l
      then (labels w j)\<lparr>loc := -1\<rparr> else labels w j)"
proof (induction T w l i rule: place_label_from.induct)
  case (1 T w l i)
  show ?case
  proof (cases "i < li w")
    case False
    then show ?thesis by (subst place_label_from.simps) simp
  next
    case True
    then show ?thesis
      by (subst place_label_from.simps) (auto simp: "1.IH")
  qed
qed


lemma place_label_labels:
  "0 \<le> l \<Longrightarrow>
   labels (codewriter_place_label T w l) j =
     (if j = l then (labels w l)\<lparr>target := int (fill w)\<rparr>
      else if j \<in> set (patch_sites w l) then (labels w j)\<lparr>loc := -1\<rparr>
      else labels w j)"
  by (auto simp: codewriter_place_label_def place_from_labels patch_sites_def)


lemma place_label_li_fill:
  "li (codewriter_place_label T w l) = li w" "fill (codewriter_place_label T w l) = fill w"
  by (simp_all add: codewriter_place_label_def)

subsection \<open>Jumps\<close>







subsection \<open>Evaluation on the concrete inputs\<close>

lemma find_label_slot_from_eval:
  "label < li w \<Longrightarrow> loc (labels w label) = -1 \<Longrightarrow> find_label_slot_from w label = Some label"
  "label < li w \<Longrightarrow> loc (labels w label) \<noteq> -1 \<Longrightarrow>
     find_label_slot_from w label = find_label_slot_from w (label + 1)"
  "\<not> label < li w \<Longrightarrow> find_label_slot_from w label = None"
  by (subst find_label_slot_from.simps, simp)+

lemma place_label_from_eval:
  "i < li w \<Longrightarrow> loc (labels w i) = l \<Longrightarrow> i \<noteq> l \<Longrightarrow>
     place_label_from T w l i =
       place_label_from T
         (w\<lparr>labels := (labels w)(i := (labels w i)\<lparr>loc := -1\<rparr>),
            bytecodes := store_wc (wc_size T) (bytecodes w) (target (labels w i))
                           (int (fill w))\<rparr>) l (i + 1)"
  "i < li w \<Longrightarrow> loc (labels w i) \<noteq> l \<or> i = l \<Longrightarrow>
     place_label_from T w l i = place_label_from T w l (i + 1)"
  "\<not> i < li w \<Longrightarrow> place_label_from T w l i = w"
  by (subst place_label_from.simps, auto)+

lemmas cw_eval = cw_calls_def codewriter_create_def cw0_def T16_def codewriter_write_def
  codewriter_write_wc_def codewriter_open_label_def codewriter_find_label_slot_def
  find_label_slot_from_eval codewriter_place_label_def place_label_from_eval
  codewriter_jump_op_def codewriter_write_cwl_def codewriter_close_label_def
  codewriter_resize_def memory_alloc_ok_def codewriter_report_locals_def
  patch_sites_def used_label_slots_def upto_rec1 Let_def













subsection \<open>The label table at the end of a compilation\<close>

lemma find_from_Some:
  "find_label_slot_from w x = Some l \<Longrightarrow> x \<le> l \<and> l < li w \<and> loc (labels w l) = -1"
proof (induction w x rule: find_label_slot_from.induct)
  case (1 w x)
  from "1.prems" show ?case
    by (subst (asm) find_label_slot_from.simps) (auto split: if_splits dest: "1.IH")
qed

lemma find_slot_cases:
  assumes "codewriter_find_label_slot T w = (i, w')"
  shows "(i < li w \<and> loc (labels w i) = -1 \<and> w' = w) \<or> (i = li w \<and> w' = w\<lparr>li := li w + 1\<rparr>)"
  using assms
  by (auto simp: codewriter_find_label_slot_def split: option.splits if_splits
           dest: find_from_Some)

lemma resize_labels [simp]:
  "labels (snd (codewriter_resize w)) = labels w" "li (snd (codewriter_resize w)) = li w"
  by (simp_all add: codewriter_resize_def Let_def)

lemma write_labels [simp]:
  "labels (codewriter_write w b) = labels w" "li (codewriter_write w b) = li w"
  by (simp_all add: codewriter_write_def Let_def split: prod.splits if_splits)
     (metis resize_labels snd_conv)+

lemma write_wc_labels [simp]:
  "labels (codewriter_write_wc T w v) = labels w" "li (codewriter_write_wc T w v) = li w"
  by (simp_all add: codewriter_write_wc_def Let_def split: prod.splits if_splits)
     (metis resize_labels snd_conv)+

lemma labels_inv_cong:
  "labels w' = labels w \<Longrightarrow> li w' = li w \<Longrightarrow> labels_inv opened w' = labels_inv opened w"
  by (simp add: labels_inv_def)

lemma labels_inv_take_slot:
  assumes inv: "labels_inv opened w"
    and f: "codewriter_find_label_slot T w = (i, w')" and i: "0 \<le> i"
    and l: "l = i \<or> l \<in> set opened"
  shows "labels_inv (if l = i then i # opened else opened)
           (w'\<lparr>labels := (labels w')(i := \<lparr>loc = l, target = t\<rparr>)\<rparr>)"
proof -
  from find_slot_cases [OF f] have c: "(i < li w \<and> loc (labels w i) = -1 \<and> w' = w) \<or>
     (i = li w \<and> w' = w\<lparr>li := li w + 1\<rparr>)" .
  have fresh: "i \<notin> set opened"
    using c inv by (auto simp: labels_inv_def)
  from c show ?thesis
  proof
    assume "i < li w \<and> loc (labels w i) = -1 \<and> w' = w"
    then show ?thesis using inv i l fresh by (auto simp: labels_inv_def)
  next
    assume "i = li w \<and> w' = w\<lparr>li := li w + 1\<rparr>"
    then show ?thesis using inv i l fresh by (auto simp: labels_inv_def)
  qed
qed

lemma find_slot_free:
  assumes "codewriter_find_label_slot T w = (i, w')"
  shows "(i < li w \<and> loc (labels w i) = -1) \<or> i = li w"
  using find_slot_cases [OF assms] by blast

lemma find_slot_neg:
  assumes "codewriter_find_label_slot T w = (i, w')" "0 \<le> li w" "\<not> 0 \<le> i"
  shows "w' = w"
proof -
  from find_slot_cases [OF assms(1)]
  have "i \<noteq> li w \<longrightarrow> w' = w" by blast
  moreover have "i \<noteq> li w" using assms(2,3) by linarith
  ultimately show ?thesis by blast
qed

lemma labels_inv_open:
  assumes "labels_inv opened w" "codewriter_open_label T w = (l, w')"
  shows "labels_inv (if 0 \<le> l then l # opened else opened) w'"
proof -
  obtain i w1 where f: "codewriter_find_label_slot T w = (i, w1)" by fastforce
  show ?thesis
  proof (cases "0 \<le> i")
    case True
    have "codewriter_open_label T w
            = (i, w1\<lparr>labels := (labels w1)(i := \<lparr>loc = i, target = -1\<rparr>)\<rparr>)"
      using f True by (simp add: codewriter_open_label_def)
    with assms(2) have e: "l = i" "w' = w1\<lparr>labels := (labels w1)(i := \<lparr>loc = i, target = -1\<rparr>)\<rparr>"
      by auto
    from labels_inv_take_slot [OF assms(1) f True, of i "-1"]
    have "labels_inv (i # opened) (w1\<lparr>labels := (labels w1)(i := \<lparr>loc = i, target = -1\<rparr>)\<rparr>)"
      by simp
    then show ?thesis using True by (simp only: e if_True)
  next
    case False
    have "0 \<le> li w" using assms(1) by (simp add: labels_inv_def)
    with f have "w1 = w" using False by (rule find_slot_neg)
    moreover have "codewriter_open_label T w = (i, w1)"
      using f False by (simp add: codewriter_open_label_def)
    ultimately have "l = i" "w' = w" using assms(2) by simp_all
    then show ?thesis using False assms(1) by simp
  qed
qed

lemma labels_inv_write [simp]:
  "labels_inv opened (codewriter_write w b) = labels_inv opened w"
  by (simp add: labels_inv_def)

lemma labels_inv_write_wc [simp]:
  "labels_inv opened (codewriter_write_wc T w v) = labels_inv opened w"
  by (simp add: labels_inv_def)

lemma labels_inv_jump:
  assumes "labels_inv opened w" "l \<in> set opened"
  shows "labels_inv opened (codewriter_jump_op T opc w l)"
proof -
  let ?w1 = "codewriter_write w opc"
  have i1: "labels_inv opened ?w1" using assms(1) by simp
  obtain i w2 where f: "codewriter_find_label_slot T ?w1 = (i, w2)" by fastforce
  show ?thesis
  proof (cases "0 \<le> l \<and> l < li ?w1 \<and> 0 \<le> target (labels ?w1 l)")
    case True
    then show ?thesis using assms(1)
      by (simp add: codewriter_jump_op_def codewriter_write_cwl_def)
  next
    case unresolved: False
    show ?thesis
    proof (cases "0 \<le> i")
      case True
      have "0 \<le> l \<and> l < li ?w1 \<and> loc (labels ?w1 l) = l"
        using i1 assms(2) by (simp add: labels_inv_def)
      with find_slot_free [OF f] have "i \<noteq> l" by auto
      with labels_inv_take_slot [OF i1 f True, of l "int (fill w2)"] assms(2)
      have "labels_inv opened (w2\<lparr>labels := (labels w2)(i := \<lparr>loc = l, target = int (fill w2)\<rparr>)\<rparr>)"
        by simp
      then have "labels_inv opened (codewriter_write_wc T
                  (w2\<lparr>labels := (labels w2)(i := \<lparr>loc = l, target = int (fill w2)\<rparr>)\<rparr>) 0)"
        by simp
      with unresolved True f show ?thesis
        by (auto simp: codewriter_jump_op_def codewriter_write_cwl_def)
    next
      case False
      have "0 \<le> li ?w1" using i1 by (simp add: labels_inv_def)
      with f have "w2 = ?w1" using False by (rule find_slot_neg)
      with unresolved False f i1 show ?thesis
        by (auto simp: codewriter_jump_op_def codewriter_write_cwl_def)
    qed
  qed
qed

lemma labels_inv_place:
  assumes "labels_inv opened w" "l \<in> set opened"
  shows "labels_inv opened (codewriter_place_label T w l)"
proof -
  from assms have l: "0 \<le> l" by (simp add: labels_inv_def)
  show ?thesis
    using assms
    by (auto simp: labels_inv_def place_label_labels [OF l] place_label_li_fill patch_sites_def)
qed

lemma labels_inv_close:
  assumes "labels_inv opened w" "l \<in> set opened" "patch_sites w l = []"
  shows "labels_inv (removeAll l opened) (codewriter_close_label w l)"
proof -
  have np: "loc (labels w i) \<noteq> l" if "0 \<le> i" "i < li w" "i \<noteq> l" for i
  proof
    assume "loc (labels w i) = l"
    with that have "i \<in> set (patch_sites w l)" by (simp add: patch_sites_def)
    with assms(3) show False by simp
  qed
  show ?thesis
    using assms(1,2) np
    by (auto simp: labels_inv_def codewriter_close_label_def)
qed

lemma cw_calls_Cons: "cw_calls T w (c # cs) = cw_calls T (cw_step T w c) cs"
  by (simp add: cw_calls_def)

lemma labels_inv_frame:
  "labels w' = labels w \<Longrightarrow> li w' = li w \<Longrightarrow> labels_inv opened w \<Longrightarrow> labels_inv opened w'"
  by (simp add: labels_inv_def)

lemma labels_inv_calls:
  "labels_inv opened w \<Longrightarrow> cw_disciplined T opened w cs \<Longrightarrow>
   labels_inv [] (cw_calls T w cs)"
proof (induction cs arbitrary: opened w)
  case Nil
  then show ?case by (simp add: cw_calls_def)
next
  case (Cons c cs)
  note inv = Cons.prems(1) and d = Cons.prems(2)
  have other: "labels_inv [] (cw_calls T w (c # cs))"
    if f: "labels (cw_step T w c) = labels w" "li (cw_step T w c) = li w"
      and d': "cw_disciplined T opened (cw_step T w c) cs"
  proof -
    have "labels_inv opened (cw_step T w c)" using f inv by (rule labels_inv_frame)
    then have "labels_inv [] (cw_calls T (cw_step T w c) cs)" using d' by (rule Cons.IH)
    then show ?thesis by (simp only: cw_calls_Cons)
  qed
  show ?case
  proof (cases c)
    case Open_label
    obtain l w' where o: "codewriter_open_label T w = (l, w')" by fastforce
    have fl: "fst (codewriter_open_label T w) = l" and sw: "snd (codewriter_open_label T w) = w'"
      using o by simp_all
    have d': "cw_disciplined T (if 0 \<le> l then l # opened else opened) w' cs"
      using d unfolding Open_label cw_disciplined.simps fl sw .
    have "labels_inv [] (cw_calls T w' cs)"
      by (rule Cons.IH [OF labels_inv_open [OF inv o] d'])
    then show ?thesis using o Open_label by (simp add: cw_calls_Cons)
  next
    case (Place_label l)
    with d have l: "l \<in> set opened"
      and d': "cw_disciplined T opened (codewriter_place_label T w l) cs" by simp_all
    have "labels_inv [] (cw_calls T (codewriter_place_label T w l) cs)"
      by (rule Cons.IH [OF labels_inv_place [OF inv l] d'])
    then show ?thesis using Place_label by (simp add: cw_calls_Cons)
  next
    case (Close_label l)
    with d have l: "l \<in> set opened" "patch_sites w l = []"
      and d': "cw_disciplined T (removeAll l opened) (codewriter_close_label w l) cs"
      by simp_all
    have "labels_inv [] (cw_calls T (codewriter_close_label w l) cs)"
      by (rule Cons.IH [OF labels_inv_close [OF inv l] d'])
    then show ?thesis using Close_label by (simp add: cw_calls_Cons)
  next
    case (Jump opc l)
    with d have l: "l \<in> set opened"
      and d': "cw_disciplined T opened (codewriter_jump_op T opc w l) cs" by simp_all
    have "labels_inv [] (cw_calls T (codewriter_jump_op T opc w l) cs)"
      by (rule Cons.IH [OF labels_inv_jump [OF inv l] d'])
    then show ?thesis using Jump by (simp add: cw_calls_Cons)
  next
    case (Report_locals n)
    show ?thesis
      by (rule other) (use d Report_locals in \<open>simp_all add: codewriter_report_locals_def\<close>)
  next
    case Enable_varargs
    show ?thesis
      by (rule other) (use d Enable_varargs in \<open>simp_all add: codewriter_enable_varargs_def\<close>)
  next
    case (Write b)
    show ?thesis by (rule other) (use d Write in simp_all)
  next
    case (Write_wc v)
    show ?thesis by (rule other) (use d Write_wc in simp_all)
  next
    case (Write_constant k)
    show ?thesis
      by (rule other)
         (use d Write_constant in \<open>simp_all add: codewriter_write_constant_def Let_def\<close>)
  qed
qed

lemma labels_inv_create: "labels_inv [] (codewriter_create w rv)"
  by (simp add: labels_inv_def codewriter_create_def)

lemma labels_inv_Nil: "labels_inv [] w \<Longrightarrow> used_label_slots w = []"
  by (auto simp: labels_inv_def used_label_slots_def filter_empty_conv)

text \<open>
  Claim C2, as the code has it. \<open>codewriter_finish\<close> reads the writer and neither
  checks nor clears the label table, so what the table holds then is up to the
  calls made before. When they follow the label protocol (only open labels are
  jumped to, placed or closed; a label is closed only when no patch site waits for
  it; every label that was opened has been closed), no entry below \<open>li\<close> has a
  \<open>loc\<close> of 0 or more when \<open>codewriter_finish\<close> is reached. This holds whether or
  not allocations fail, and for both readings of the type of \<open>li\<close>.
\<close>

theorem codewriter_finish_labels_clear:
  "cw_disciplined T [] (codewriter_create w rv) cs \<Longrightarrow>
   used_label_slots (cw_calls T (codewriter_create w rv) cs) = []"
  by (rule labels_inv_Nil, rule labels_inv_calls, rule labels_inv_create)


lemma disciplined_eval:
  "cw_disciplined T16 [] (codewriter_create cw0 0)
     [Open_label, Jump 9 0, Report_locals 2, Place_label 0, Jump 9 0, Close_label 0]"
  by (simp add: cw_eval)

theorem codewriter_finish_labels_clear_witness:
  "cw_disciplined T16 [] (codewriter_create cw0 0)
     [Open_label, Jump 9 0, Report_locals 2, Place_label 0, Jump 9 0, Close_label 0]
   \<and> used_label_slots (cw_calls T16 (codewriter_create cw0 0)
       [Open_label, Jump 9 0, Report_locals 2, Place_label 0, Jump 9 0, Close_label 0]) = []"
  using codewriter_finish_labels_clear [OF disciplined_eval] disciplined_eval by simp

text \<open>
  Claim C2 as stated fails: after \<open>codewriter_open_label\<close> alone, entry 0 is in use,
  and \<open>codewriter_finish\<close> can be called on that writer.
\<close>

theorem codewriter_finish_labels_counterexample:
  "used_label_slots (cw_calls T16 (codewriter_create cw0 0) [Open_label]) = [0]"
  by (simp add: cw_eval)

section \<open>Properties of the file system\<close>

subsection \<open>Deleting a node\<close>

lemmas fs_eval = fs0_def fs1_def fs2_def fs3_def junk_def file_new_def memory_alloc_def
  alloc_ok_def memory_free_def read_link_def write_link_def file_unlink_def
  file_resolve1_def resolve_loop.simps Let_def eval_nat_numeral

text \<open>
  Claim C10, which the code breaks. In the tree of the root with the children \<open>b\<close>
  and \<open>a\<close> (in the order of the sibling chain), \<open>file_delete\<close> of \<open>a\<close> frees the node
  but leaves it in the chain: \<open>b\<close> still has \<open>a\<close> as its sibling, and resolving the name
  \<open>a\<close> from the root returns the freed node, not nil. \<open>file_delete\<close> of the first
  child \<open>b\<close> does what the claim says.
\<close>

theorem file_delete_later_sibling:
  "(case file_delete 3 fs3 2 of
      None \<Rightarrow> False
    | Some s \<Rightarrow>
        2 \<notin> live s \<and> f_children (heap s 1) = Some 3 \<and> f_sibling (heap s 3) = Some 2
        \<and> file_resolve 3 s (Some 1) ''a'' = Some (Some 2))
   \<and> (case file_delete 3 fs3 3 of
      None \<Rightarrow> False
    | Some s \<Rightarrow>
        3 \<notin> live s \<and> f_children (heap s 1) = Some 2 \<and> f_sibling (heap s 2) = None
        \<and> file_resolve 3 s (Some 1) ''b'' = Some None)"
  by (simp add: fs_eval)

subsection \<open>Resolving a path\<close>

lemma file_namecmp_iff:
  "CHR ''/'' \<notin> set fname \<Longrightarrow>
   file_namecmp path fname \<longleftrightarrow> fname = takeWhile (\<lambda>c. c \<noteq> CHR ''/'') path"
proof (induction path fname rule: file_namecmp.induct)
  case (1 path)
  then show ?case by (cases path) auto
next
  case (2 f fname)
  then show ?case by simp
next
  case (3 p path f fname)
  then show ?case by auto
qed

lemma skip_component_eq:
  "skip_component name = drop 1 (dropWhile (\<lambda>c. c \<noteq> CHR ''/'') name)"
  by (induction name) auto

lemma find_child_chain:
  assumes "sibling_chain k h p = Some cs"
    and "list_all (\<lambda>c. CHR ''/'' \<notin> set (f_name (h c))) cs"
  shows "find_child k h p name
           = Some (find (\<lambda>c. f_name (h c) = takeWhile (\<lambda>c. c \<noteq> CHR ''/'') name) cs)"
  using assms
proof (induction k h p arbitrary: cs rule: sibling_chain.induct)
  case (1 k h)
  then show ?case by simp
next
  case (2 h a)
  then show ?case by simp
next
  case (3 k h a)
  then obtain cs' where c: "sibling_chain k h (f_sibling (h a)) = Some cs'" "cs = a # cs'"
    by (auto split: option.splits)
  with "3.prems" have "CHR ''/'' \<notin> set (f_name (h a))"
    "list_all (\<lambda>c. CHR ''/'' \<notin> set (f_name (h c))) cs'" by simp_all
  with "3.IH" [OF c(1)] c(2) show ?case by (simp add: file_namecmp_iff)
qed

lemma node_ok_chain:
  assumes "node_ok k s a"
  shows "sibling_chain k (heap s) (f_children (heap s a)) = Some (children_of k s a)"
    and "list_all (\<lambda>c. c \<in> live s \<and> f_parent (heap s c) = Some a
                        \<and> CHR ''/'' \<notin> set (f_name (heap s c))) (children_of k s a)"
    and "f_parent (heap s a) = Some p \<Longrightarrow> p \<in> live s"
  using assms by (auto simp: node_ok_def children_of_def split: option.splits)

lemma file_resolve1_step:
  assumes "node_ok k s f"
  shows "file_resolve1 k s f name
           = Some (resolve_step k s f (takeWhile (\<lambda>c. c \<noteq> CHR ''/'') name))"
proof -
  have dd: "file_namecmp name ''..'' \<longleftrightarrow> takeWhile (\<lambda>c. c \<noteq> CHR ''/'') name = ''..''"
    using file_namecmp_iff [of "''..''" name] by auto
  have d: "file_namecmp name ''.'' \<longleftrightarrow> takeWhile (\<lambda>c. c \<noteq> CHR ''/'') name = ''.''"
    using file_namecmp_iff [of "''.''" name] by auto
  have "list_all (\<lambda>c. CHR ''/'' \<notin> set (f_name (heap s c))) (children_of k s f)"
    using node_ok_chain(2) [OF assms] by (simp add: list_all_iff)
  from find_child_chain [OF node_ok_chain(1) [OF assms] this, of name]
  show ?thesis by (simp add: file_resolve1_def resolve_step_def dd d)
qed

lemma resolve_step_live:
  assumes "fs_ok k s" "f \<in> live s" "resolve_step k s f nm = Some g"
  shows "g \<in> live s"
proof -
  from assms(1,2) have ok: "node_ok k s f" by (simp add: fs_ok_def)
  show ?thesis
  proof (cases "nm = ''..'' \<or> nm = ''.''")
    case True
    with assms(2,3) node_ok_chain(3) [OF ok] show ?thesis
      by (auto simp: resolve_step_def split: if_splits)
  next
    case False
    with assms(3) have "find (\<lambda>c. f_name (heap s c) = nm) (children_of k s f) = Some g"
      by (simp add: resolve_step_def)
    then have "g \<in> set (children_of k s f)" by (auto simp: find_Some_iff)
    with node_ok_chain(2) [OF ok] show ?thesis by (simp add: list_all_iff)
  qed
qed

lemma resolve_loop_components:
  "fs_ok k s \<Longrightarrow> (case fl of None \<Rightarrow> True | Some f \<Rightarrow> f \<in> live s) \<Longrightarrow>
   resolve_loop k s fl name = Some (resolve_components k s fl (path_components name))"
proof (induction k s fl name rule: resolve_loop.induct)
  case (1 k s fl name)
  note ok_all = "1.prems"(1)
  show ?case
  proof (cases fl)
    case None
    then show ?thesis by (subst resolve_loop.simps) simp
  next
    case (Some f)
    with "1.prems" have f: "f \<in> live s" by simp
    with ok_all have ok: "node_ok k s f" by (simp add: fs_ok_def)
    show ?thesis
    proof (cases "name = []")
      case True
      with Some show ?thesis
        by (subst resolve_loop.simps, subst path_components.simps) simp
    next
      case False
      let ?g = "resolve_step k s f (takeWhile (\<lambda>c. c \<noteq> CHR ''/'') name)"
      have r1: "file_resolve1 k s f name = Some ?g" by (rule file_resolve1_step [OF ok])
      have live: "case ?g of None \<Rightarrow> True | Some g \<Rightarrow> g \<in> live s"
        using resolve_step_live [OF ok_all f] by (auto split: option.splits)
      have "resolve_loop k s ?g (skip_component name)
              = Some (resolve_components k s ?g (path_components (skip_component name)))"
        by (rule "1.IH" [OF Some False r1 ok_all live])
      with Some False r1 show ?thesis
        by (subst resolve_loop.simps, subst path_components.simps)
           (simp add: skip_component_eq)
    qed
  qed
qed

lemma file_resolve_spec:
  assumes "fs_ok k s" "case fs_root s of None \<Rightarrow> False | Some r \<Rightarrow> r \<in> live s"
  shows "f \<in> live s \<Longrightarrow> file_resolve k s (Some f) p = Some (resolve_spec k s f p)"
proof (induction p arbitrary: f)
  case Nil
  then show ?case
    using resolve_loop_components [OF assms(1), of "Some f" "[]"]
    by (simp add: resolve_spec_def)
next
  case (Cons c p)
  from assms(2) obtain r where r: "fs_root s = Some r" "r \<in> live s"
    by (auto split: option.splits)
  show ?case
  proof (cases "c = CHR ''/''")
    case False
    with Cons.prems show ?thesis
      using resolve_loop_components [OF assms(1), of "Some f" "c # p"]
      by (simp add: resolve_spec_def)
  next
    case True
    have "file_resolve k s (Some r) p = Some (resolve_spec k s r p)"
      by (rule Cons.IH [OF r(2)])
    moreover have "resolve_spec k s r p
        = resolve_components k s (Some r) (path_components (dropWhile (\<lambda>c. c = CHR ''/'') p))"
    proof (cases "p \<noteq> [] \<and> hd p = CHR ''/''")
      case True
      then show ?thesis by (simp add: resolve_spec_def r)
    next
      case False
      then have "dropWhile (\<lambda>c. c = CHR ''/'') p = p" by (cases p) auto
      with False show ?thesis by (auto simp: resolve_spec_def)
    qed
    ultimately show ?thesis using True r by (simp add: resolve_spec_def)
  qed
qed

text \<open>
  Claim C3. In a well-formed tree, from any live node and for any path,
  \<open>file_resolve\<close> returns what the path grammar says (\<open>resolve_spec\<close>): a leading \<open>/\<close>
  restarts at the root; the components between the \<open>/\<close> are taken one by one, \<open>..\<close>
  as the parent, \<open>.\<close> as the node itself, any other as the child with exactly that
  name; and once a step has no result (no such child, or \<open>..\<close> at a node without
  parent) the result is nil. The bound \<open>k\<close> on the length of the sibling chains is
  also enough for the loops of the code: the call returns.
\<close>

theorem file_resolve_path_grammar:
  assumes "fs_ok k s" and "case fs_root s of None \<Rightarrow> False | Some r \<Rightarrow> r \<in> live s"
    and "f \<in> live s"
  shows "file_resolve k s (Some f) p = Some (resolve_spec k s f p)"
  using assms by (rule file_resolve_spec)

lemmas fs_ok_eval = fs_ok_def node_ok_def fs_lib_def fs_eval

lemma fs_lib_eval:
  "fs_ok 1 fs_lib" "fs_root fs_lib = Some 1" "live fs_lib = {1, 2, 3, 4}"
  "f_parent (heap fs_lib 1) = None" "f_name (heap fs_lib 1) = []"
  by (simp_all add: fs_ok_eval) auto

lemma resolve_spec_eval:
  "resolve_spec 1 fs_lib 3 ''../std/obj'' = Some 4"
  "resolve_spec 1 fs_lib 3 ''/lib/./std/'' = Some 3"
  "resolve_spec 1 fs_lib 3 ''/lib/nope/obj'' = None"
  "resolve_spec 1 fs_lib 3 ''../../..'' = None"
  by (simp_all add: resolve_spec_def path_components.simps resolve_step_def children_of_def
        fs_lib_def fs_eval)

theorem file_resolve_path_grammar_witness:
  "fs_ok 1 fs_lib \<and> fs_root fs_lib = Some 1 \<and> 1 \<in> live fs_lib \<and> 3 \<in> live fs_lib
   \<and> file_resolve 1 fs_lib (Some 3) ''../std/obj'' = Some (Some 4)
   \<and> file_resolve 1 fs_lib (Some 3) ''/lib/./std/'' = Some (Some 3)
   \<and> file_resolve 1 fs_lib (Some 3) ''/lib/nope/obj'' = Some None
   \<and> file_resolve 1 fs_lib (Some 3) ''../../..'' = Some None"
proof -
  have r: "case fs_root fs_lib of None \<Rightarrow> False | Some r \<Rightarrow> r \<in> live fs_lib"
    and l: "3 \<in> live fs_lib" by (simp_all add: fs_lib_eval)
  note t = file_resolve_path_grammar [OF fs_lib_eval(1) r l]
  have a: "file_resolve 1 fs_lib (Some 3) ''../std/obj'' = Some (Some 4)"
    "file_resolve 1 fs_lib (Some 3) ''/lib/./std/'' = Some (Some 3)"
    "file_resolve 1 fs_lib (Some 3) ''/lib/nope/obj'' = Some None"
    "file_resolve 1 fs_lib (Some 3) ''../../..'' = Some None"
    by (simp_all only: t resolve_spec_eval)
  have b: "1 \<in> live fs_lib" by (simp add: fs_lib_eval)
  from fs_lib_eval(1,2) b l a show ?thesis by (intro conjI)
qed

subsection \<open>From a path to a node and back\<close>








subsection \<open>Compiling a node\<close>

lemma gc_alloc_cases:
  "gc_alloc s = (if alloc_ok s
                 then (Some (gc_brk s), s\<lparr>gc_brk := gc_brk s + 1, mem_plan := tl (mem_plan s)\<rparr>)
                 else (None, s\<lparr>mem_plan := tl (mem_plan s)\<rparr>))"
  by (simp add: gc_alloc_def)

lemma gc_alloc_heap [simp]: "heap (snd (gc_alloc s)) = heap s"
  by (simp add: gc_alloc_def)

lemma file_open_Some:
  "file_write_path k (heap s) file (fs_anchor s) = Some path \<Longrightarrow>
   file_open E k s file =
     Some (host_file E path, s\<lparr>fs_log := fs_log s @ [''Compiling file '' @ path @ ''...'']\<rparr>)"
  by (simp add: file_open_def)









subsection \<open>The caches of a node\<close>












subsection \<open>Creating nodes\<close>

lemma file_new_fail:
  "\<not> alloc_ok s \<Longrightarrow> file_new s par name = (None, s\<lparr>mem_plan := tl (mem_plan s)\<rparr>)"
  by (simp add: file_new_def memory_alloc_def)

lemma file_new_ok:
  assumes "alloc_ok s"
  shows "fst (file_new s par name) = Some (brk s)"
    and "live (snd (file_new s par name)) = insert (brk s) (live s)"
    and "brk (snd (file_new s par name)) = Suc (brk s)"
    and "fs_root (snd (file_new s par name)) = fs_root s"
    and "f_name (heap (snd (file_new s par name)) (brk s)) = name"
    and "f_parent (heap (snd (file_new s par name)) (brk s)) = par"
    and "f_children (heap (snd (file_new s par name)) (brk s)) = None"
  using assms
  by (auto simp: file_new_def memory_alloc_def Let_def split: option.splits)

lemma file_new_ok_sibling:
  assumes "alloc_ok s" "p \<noteq> brk s"
  shows "f_sibling (heap (snd (file_new s (Some p) name)) (brk s)) = f_children (heap s p)"
    and "f_children (heap (snd (file_new s (Some p) name)) p) = Some (brk s)"
  using assms
  by (auto simp: file_new_def memory_alloc_def Let_def split: option.splits)

lemma file_new_ok_other:
  assumes "alloc_ok s" "a \<noteq> brk s"
  shows "f_name (heap (snd (file_new s par name)) a) = f_name (heap s a)"
    and "f_parent (heap (snd (file_new s par name)) a) = f_parent (heap s a)"
    and "f_sibling (heap (snd (file_new s par name)) a) = f_sibling (heap s a)"
    and "par \<noteq> Some a \<Longrightarrow> f_children (heap (snd (file_new s par name)) a) = f_children (heap s a)"
    and "f_blueprint (heap (snd (file_new s par name)) a) = f_blueprint (heap s a)"
    and "f_object (heap (snd (file_new s par name)) a) = f_object (heap s a)"
  using assms
  by (auto simp: file_new_def memory_alloc_def Let_def split: option.splits)

lemma sibling_chain_frame:
  "sibling_chain k h p = Some cs \<Longrightarrow> (\<forall>c \<in> set cs. f_sibling (h' c) = f_sibling (h c)) \<Longrightarrow>
   k \<le> k' \<Longrightarrow> sibling_chain k' h' p = Some cs"
proof (induction k h p arbitrary: cs k' rule: sibling_chain.induct)
  case (1 k h)
  then show ?case by simp
next
  case (2 h a)
  then show ?case by simp
next
  case (3 k h a)
  then obtain cs' where c: "sibling_chain k h (f_sibling (h a)) = Some cs'" "cs = a # cs'"
    by (auto split: option.splits)
  from "3.prems"(3) obtain j where j: "k' = Suc j" "k \<le> j" by (cases k') auto
  have "sibling_chain j h' (f_sibling (h a)) = Some cs'"
    by (rule "3.IH" [OF c(1)]) (use "3.prems"(2) c(2) j in auto)
  moreover have "f_sibling (h' a) = f_sibling (h a)" using "3.prems"(2) c(2) by simp
  ultimately show ?case using c(2) j by simp
qed

lemma tree_inv_node:
  assumes "tree_inv s" "a \<in> live s"
  shows "sibling_chain (brk s) (heap s) (f_children (heap s a)) = Some (children_of (brk s) s a)"
    and "\<forall>c \<in> set (children_of (brk s) s a).
           c \<in> live s \<and> f_parent (heap s c) = Some a \<and> CHR ''/'' \<notin> set (f_name (heap s c))"
    and "a < brk s"
    and "f_parent (heap s a) = Some p \<Longrightarrow> p \<in> live s"
    and "distinct (child_names (brk s) s a)"
    and "CHR ''/'' \<notin> set (f_name (heap s a))"
proof -
  from assms have ok: "node_ok (brk s) s a" by (simp add: tree_inv_def fs_ok_def)
  show "sibling_chain (brk s) (heap s) (f_children (heap s a)) = Some (children_of (brk s) s a)"
    by (rule node_ok_chain(1) [OF ok])
  show "\<forall>c \<in> set (children_of (brk s) s a).
           c \<in> live s \<and> f_parent (heap s c) = Some a \<and> CHR ''/'' \<notin> set (f_name (heap s c))"
    using node_ok_chain(2) [OF ok] by (simp add: list_all_iff)
  show "f_parent (heap s a) = Some p \<Longrightarrow> p \<in> live s" by (rule node_ok_chain(3) [OF ok])
  show "a < brk s" using assms by (simp add: tree_inv_def)
  show "distinct (child_names (brk s) s a)"
    using assms by (simp add: tree_inv_def sibling_names_unique_def)
  show "CHR ''/'' \<notin> set (f_name (heap s a))"
    using assms by (simp add: tree_inv_def names_without_slash_def)
qed

lemma file_new_chain:
  assumes inv: "tree_inv s" and ok: "alloc_ok s" and a: "a \<in> live s"
  shows "sibling_chain (Suc (brk s)) (heap (snd (file_new s par name)))
           (f_children (heap (snd (file_new s par name)) a))
         = Some (if par = Some a then brk s # children_of (brk s) s a
                 else children_of (brk s) s a)"
proof -
  let ?s' = "snd (file_new s par name)"
  let ?cs = "children_of (brk s) s a"
  note n = tree_inv_node [OF inv a]
  have an: "a \<noteq> brk s" using n(3) by simp
  have fr: "\<forall>c \<in> set ?cs. f_sibling (heap ?s' c) = f_sibling (heap s c)"
  proof
    fix c assume "c \<in> set ?cs"
    with n(2) have "c \<in> live s" by simp
    with inv have "c \<noteq> brk s" by (auto simp: tree_inv_def)
    then show "f_sibling (heap ?s' c) = f_sibling (heap s c)"
      by (rule file_new_ok_other(3) [OF ok])
  qed
  show ?thesis
  proof (cases "par = Some a")
    case False
    then have "f_children (heap ?s' a) = f_children (heap s a)"
      by (rule file_new_ok_other(4) [OF ok an])
    with sibling_chain_frame [OF n(1) fr, of "Suc (brk s)"] False show ?thesis by simp
  next
    case True
    have c: "f_children (heap ?s' a) = Some (brk s)"
      and sb: "f_sibling (heap ?s' (brk s)) = f_children (heap s a)"
      unfolding True by (rule file_new_ok_sibling [OF ok an])+
    from sibling_chain_frame [OF n(1) fr, of "brk s"] True c sb show ?thesis by simp
  qed
qed

lemma file_new_children_of:
  assumes "tree_inv s" "alloc_ok s" "a \<in> live s"
  shows "children_of (brk (snd (file_new s par name))) (snd (file_new s par name)) a
         = (if par = Some a then brk s # children_of (brk s) s a else children_of (brk s) s a)"
  using file_new_chain [OF assms, of par name]
  by (simp add: children_of_def file_new_ok(3) [OF assms(2)])

lemma file_new_children_of_new:
  assumes "alloc_ok s"
  shows "children_of k (snd (file_new s par name)) (brk s) = []"
  by (simp add: children_of_def file_new_ok(7) [OF assms])

lemma file_new_tree_inv_ok:
  assumes inv: "tree_inv s" and ok: "alloc_ok s"
    and par: "case par of None \<Rightarrow> True
              | Some p \<Rightarrow> p \<in> live s \<and> name \<notin> set (child_names (brk s) s p)"
    and nm: "CHR ''/'' \<notin> set name"
  shows "tree_inv (snd (file_new s par name))"
proof -
  let ?s' = "snd (file_new s par name)"
  let ?n = "brk s"
  note new = file_new_ok [OF ok]
  have fresh: "a \<noteq> ?n" if "a \<in> live s" for a
    using tree_inv_node(3) [OF inv that] by simp
  have old: "f_name (heap (snd (file_new s q m)) a) = f_name (heap s a)"
    "f_parent (heap (snd (file_new s q m)) a) = f_parent (heap s a)"
    if "a \<in> live s" for a q m
    using file_new_ok_other(1,2) [OF ok fresh [OF that]] by simp_all
  have kids: "children_of (Suc ?n) ?s' a
                = (if par = Some a then ?n # children_of ?n s a else children_of ?n s a)"
    if "a \<in> live s" for a
    using file_new_children_of [OF inv ok that, of par name] by (simp add: new)
  have kids_new: "children_of (Suc ?n) ?s' ?n = []" by (rule file_new_children_of_new [OF ok])
  have par_live: "p \<in> live s" if "par = Some p" for p using par that by simp
  have node: "node_ok (Suc ?n) ?s' a" if a: "a \<in> live s" for a
  proof -
    note n = tree_inv_node [OF inv a]
    have ch: "sibling_chain (Suc ?n) (heap ?s') (f_children (heap ?s' a))
                = Some (children_of (Suc ?n) ?s' a)"
      using file_new_chain [OF inv ok a, of par name] kids [OF a] by simp
    have "c \<in> live ?s' \<and> f_parent (heap ?s' c) = Some a
            \<and> CHR ''/'' \<notin> set (f_name (heap ?s' c))"
      if "c \<in> set (children_of (Suc ?n) ?s' a)" for c
    proof (cases "c = ?n")
      case True
      with that kids [OF a] n(2) fresh have pa: "par = Some a" by (auto split: if_splits)
      have "c \<in> live ?s'" "f_parent (heap ?s' c) = par" "f_name (heap ?s' c) = name"
        unfolding True by (simp_all add: new)
      with pa nm show ?thesis by simp
    next
      case False
      with that kids [OF a] have "c \<in> set (children_of ?n s a)" by (auto split: if_splits)
      with n(2) have "c \<in> live s" "f_parent (heap s c) = Some a"
        "CHR ''/'' \<notin> set (f_name (heap s c))" by simp_all
      then show ?thesis by (simp add: old new)
    qed
    moreover have "p \<in> live ?s'" if "f_parent (heap ?s' a) = Some p" for p
      using that n(4) [of p] by (simp add: old [OF a] new)
    ultimately show ?thesis
      by (auto simp: node_ok_def ch list_all_iff split: option.splits)
  qed
  have node_new: "node_ok (Suc ?n) ?s' ?n"
    using par_live by (auto simp: node_ok_def new split: option.splits)
  have 1: "fs_ok (brk ?s') ?s'"
    using node node_new by (auto simp: fs_ok_def new)
  have 2: "\<forall>a \<in> live ?s'. a < brk ?s'"
    using tree_inv_node(3) [OF inv] by (auto simp: new less_Suc_eq)
  have names: "child_names (Suc ?n) ?s' a
                 = (if par = Some a then name # child_names ?n s a else child_names ?n s a)"
    if a: "a \<in> live s" for a
  proof -
    have "map (\<lambda>c. f_name (heap (snd (file_new s q m)) c)) (children_of ?n s a)
            = map (\<lambda>c. f_name (heap s c)) (children_of ?n s a)" for q m
      using tree_inv_node(2) [OF inv a] by (intro map_cong) (auto simp: old)
    then show ?thesis by (simp add: child_names_def kids [OF a] new)
  qed
  have 3: "sibling_names_unique ?s'"
    unfolding sibling_names_unique_def
  proof
    fix a assume "a \<in> live ?s'"
    then consider "a = ?n" | "a \<in> live s" by (auto simp: new)
    then show "distinct (child_names (brk ?s') ?s' a)"
    proof cases
      case 1
      then show ?thesis by (simp add: child_names_def kids_new new)
    next
      case 2
      with names [OF 2] tree_inv_node(5) [OF inv 2] par show ?thesis
        by (auto simp: new)
    qed
  qed
  have 4: "names_without_slash ?s'"
    using tree_inv_node(6) [OF inv] nm by (auto simp: names_without_slash_def new old)
  have 5: "root_ok ?s'"
    using inv by (auto simp: root_ok_def tree_inv_def new old split: option.splits)
  from 1 2 3 4 5 show ?thesis by (simp add: tree_inv_def)
qed

lemma file_new_child_names:
  assumes inv: "tree_inv s" and ok: "alloc_ok s" and a: "a \<in> live s"
  shows "child_names (brk (snd (file_new s par name))) (snd (file_new s par name)) a
           = (if par = Some a then name # child_names (brk s) s a else child_names (brk s) s a)"
proof -
  have "f_name (heap (snd (file_new s q m)) c) = f_name (heap s c)"
    if "c \<in> set (children_of (brk s) s a)" for c q m
  proof -
    from tree_inv_node(2) [OF inv a] that have "c \<in> live s" by simp
    from tree_inv_node(3) [OF inv this] have "c \<noteq> brk s" by simp
    then show ?thesis by (rule file_new_ok_other(1) [OF ok])
  qed
  then have "map (\<lambda>c. f_name (heap (snd (file_new s q m)) c)) (children_of (brk s) s a)
            = map (\<lambda>c. f_name (heap s c)) (children_of (brk s) s a)" for q m
    by (intro map_cong) auto
  note m = this
  show ?thesis
  proof (cases "par = Some a")
    case True
    show ?thesis
      unfolding True child_names_def file_new_children_of [OF inv ok a]
      using m [of "Some a" name] file_new_ok(5) [OF ok, of "Some a" name] by simp
  next
    case False
    then show ?thesis
      unfolding child_names_def file_new_children_of [OF inv ok a]
      using m [of par name] by simp
  qed
qed

lemma tree_inv_plan [simp]: "tree_inv (s\<lparr>mem_plan := m\<rparr>) = tree_inv s"
  by (simp add: tree_inv_def fs_ok_def node_ok_def sibling_names_unique_def child_names_def
        children_of_def names_without_slash_def root_ok_def cong: option.case_cong)

lemma tree_inv_log [simp]: "tree_inv (s\<lparr>fs_log := l\<rparr>) = tree_inv s"
  by (simp add: tree_inv_def fs_ok_def node_ok_def sibling_names_unique_def child_names_def
        children_of_def names_without_slash_def root_ok_def cong: option.case_cong)

lemma child_names_plan [simp]: "child_names k (s\<lparr>mem_plan := m\<rparr>) a = child_names k s a"
  by (simp add: child_names_def children_of_def)

lemma child_names_log [simp]: "child_names k (s\<lparr>fs_log := l\<rparr>) a = child_names k s a"
  by (simp add: child_names_def children_of_def)

lemma file_new_tree_inv:
  assumes "tree_inv s"
    and "case par of None \<Rightarrow> True
         | Some p \<Rightarrow> p \<in> live s \<and> name \<notin> set (child_names (brk s) s p)"
    and "CHR ''/'' \<notin> set name"
  shows "tree_inv (snd (file_new s par name))"
proof (cases "alloc_ok s")
  case True
  with assms show ?thesis by (intro file_new_tree_inv_ok)
next
  case False
  with assms(1) show ?thesis by (simp add: file_new_fail)
qed

lemma file_new_step:
  assumes inv: "tree_inv s" and p: "p \<in> live s" and nm: "CHR ''/'' \<notin> set name"
    and new: "name \<notin> set (child_names (brk s) s p)"
  shows "tree_inv (snd (file_new s (Some p) name))"
    and "live s \<subseteq> live (snd (file_new s (Some p) name))"
    and "\<forall>a \<in> live s. a \<noteq> p \<longrightarrow>
           child_names (brk (snd (file_new s (Some p) name))) (snd (file_new s (Some p) name)) a
             = child_names (brk s) s a"
    and "set (child_names (brk (snd (file_new s (Some p) name)))
               (snd (file_new s (Some p) name)) p)
           \<subseteq> insert name (set (child_names (brk s) s p))"
    and "case fst (file_new s (Some p) name) of
           None \<Rightarrow> True
         | Some f \<Rightarrow> f \<in> live (snd (file_new s (Some p) name)) \<and> f \<notin> live s
                     \<and> child_names (brk (snd (file_new s (Some p) name)))
                          (snd (file_new s (Some p) name)) f = []"
proof -
  let ?s' = "snd (file_new s (Some p) name)"
  show "tree_inv ?s'" using inv p new nm by (intro file_new_tree_inv) simp_all
  show "live s \<subseteq> live ?s'"
    by (cases "alloc_ok s") (auto simp: file_new_ok file_new_fail)
  show "\<forall>a \<in> live s. a \<noteq> p \<longrightarrow> child_names (brk ?s') ?s' a = child_names (brk s) s a"
  proof (cases "alloc_ok s")
    case True
    then show ?thesis by (auto simp: file_new_child_names [OF inv True])
  next
    case False
    then show ?thesis by (simp add: file_new_fail)
  qed
  show "set (child_names (brk ?s') ?s' p) \<subseteq> insert name (set (child_names (brk s) s p))"
  proof (cases "alloc_ok s")
    case True
    then show ?thesis by (auto simp: file_new_child_names [OF inv True p])
  next
    case False
    then show ?thesis by (auto simp: file_new_fail)
  qed
  show "case fst (file_new s (Some p) name) of
           None \<Rightarrow> True
         | Some f \<Rightarrow> f \<in> live ?s' \<and> f \<notin> live s \<and> child_names (brk ?s') ?s' f = []"
  proof (cases "alloc_ok s")
    case True
    have "brk s \<notin> live s" using inv by (auto simp: tree_inv_def)
    with True show ?thesis
      by (simp add: file_new_ok child_names_def file_new_children_of_new)
  next
    case False
    then show ?thesis by (simp add: file_new_fail)
  qed
qed

lemma grows_under_refl:
  "tree_inv s' \<Longrightarrow> heap s' = heap s \<Longrightarrow> live s' = live s \<Longrightarrow> brk s' = brk s \<Longrightarrow>
   grows_under s s' fl names"
  by (auto simp: grows_under_def child_names_def children_of_def)

lemma grows_under_trans:
  "grows_under s s1 fl ns \<Longrightarrow> grows_under s1 s2 fl ms \<Longrightarrow> grows_under s s2 fl (ns @ ms)"
  unfolding grows_under_def by (auto; blast)

lemma grows_under_child:
  assumes "grows_under s s1 fl ns" "grows_under s1 s2 f ms" "f \<notin> live s" "fl \<in> live s"
  shows "grows_under s s2 fl ns"
proof -
  have "fl \<in> live s1" "fl \<noteq> f" using assms by (auto simp: grows_under_def)
  with assms(2) have "child_names (brk s2) s2 fl = child_names (brk s1) s1 fl"
    by (simp add: grows_under_def)
  moreover have "child_names (brk s2) s2 a = child_names (brk s) s a"
    if "a \<in> live s" "a \<noteq> fl" for a
  proof -
    from that assms(1,3) have "a \<in> live s1" "a \<noteq> f" by (auto simp: grows_under_def)
    with assms(2) have "child_names (brk s2) s2 a = child_names (brk s1) s1 a"
      by (simp add: grows_under_def)
    with assms(1) that show ?thesis by (simp add: grows_under_def)
  qed
  ultimately show ?thesis using assms(1,2) by (auto simp: grows_under_def)
qed

lemma grows_under_names:
  "grows_under s s' fl ns \<Longrightarrow> set ns \<subseteq> set ms \<Longrightarrow> grows_under s s' fl ms"
  by (auto simp: grows_under_def)

lemma stringbuilder_get_simps [simp]:
  "heap (snd (stringbuilder_get s)) = heap s" "live (snd (stringbuilder_get s)) = live s"
  "brk (snd (stringbuilder_get s)) = brk s"
  "tree_inv (snd (stringbuilder_get s)) = tree_inv s"
  "child_names k (snd (stringbuilder_get s)) a = child_names k s a"
  by (simp_all add: stringbuilder_get_def)

lemma entry_names_Cons:
  "entry_names ((d, sub) # es)
     = (if d \<noteq> ''.'' \<and> d \<noteq> ''..'' then d # entry_names es else entry_names es)"
  by (simp add: entry_names_def)

lemma file_load_grows:
  "tree_inv s \<Longrightarrow> fl \<in> live s \<Longrightarrow> host_ok node \<Longrightarrow>
   set (node_names node) \<inter> set (child_names (brk s) s fl) = {} \<Longrightarrow>
   grows_under s (file_load s fl path node) fl (node_names node)"
  and "tree_inv s \<Longrightarrow> fl \<in> live s \<Longrightarrow> host_ok (Host_dir es) \<Longrightarrow>
   set (entry_names es) \<inter> set (child_names (brk s) s fl) = {} \<Longrightarrow>
   grows_under s (file_load_entries s fl path es) fl (entry_names es)"
proof (induction s fl path node and s fl path es rule: file_load_file_load_entries.induct)
  case (1 s fl path)
  then show ?case by (simp add: grows_under_refl)
next
  case (2 s fl path es)
  let ?s1 = "s\<lparr>fs_log := fs_log s @ [''Loading '' @ path @ ''...'']\<rparr>"
  have a: "grows_under s ?s1 fl []" using "2.prems"(1) by (simp add: grows_under_refl)
  have "grows_under ?s1 (file_load_entries ?s1 fl path es) fl (entry_names es)"
    using "2.prems" by (intro "2.IH") simp_all
  from grows_under_trans [OF a this] show ?case by simp
next
  case (3 s fl path)
  then show ?case by (simp add: grows_under_refl)
next
  case (4 s fl path d sub es)
  note inv = "4.prems"(1) and fl = "4.prems"(2) and host = "4.prems"(3) and dis = "4.prems"(4)
  let ?dot = "\<not> (d \<noteq> ''.'' \<and> d \<noteq> ''..'')"
  let ?s1 = "snd (stringbuilder_get s)"
  let ?s2 = "snd (file_new ?s1 (Some fl) d)"
  let ?mid = "if d \<noteq> ''.'' \<and> d \<noteq> ''..''
              then (if fst (stringbuilder_get s)
                    then (case fst (file_new ?s1 (Some fl) d) of
                            None \<Rightarrow> ?s2
                          | Some f \<Rightarrow> file_load ?s2 f (path @ ''/'' @ d) sub)
                    else ?s1)
              else s"
  let ?ns = "if d \<noteq> ''.'' \<and> d \<noteq> ''..'' then [d] else []"
  have host_es: "host_ok (Host_dir es)" and host_sub: "host_ok sub"
    using host by (auto simp: entry_names_Cons split: if_splits)
  have s1: "grows_under s ?s1 fl []" using inv by (simp add: grows_under_refl)
  have mid: "grows_under s ?mid fl ?ns"
  proof (cases "d \<noteq> ''.'' \<and> d \<noteq> ''..''")
    case False
    then have "d = ''.'' \<or> d = ''..''" by simp
    then show ?thesis using inv by (elim disjE) (simp_all add: grows_under_refl)
  next
    case nodot: True
    show ?thesis
    proof (cases "fst (stringbuilder_get s)")
      case False
      from grows_under_names [OF s1, of "[d]"] have "grows_under s ?s1 fl [d]" by simp
      with nodot False show ?thesis by simp
    next
      case sb: True
      have d_ok: "CHR ''/'' \<notin> set d" "d \<notin> set (child_names (brk ?s1) ?s1 fl)"
        using host dis nodot by (auto simp: entry_names_Cons)
      have inv1: "tree_inv ?s1" and fl1: "fl \<in> live ?s1" using inv fl by simp_all
      note st = file_new_step [OF inv1 fl1 d_ok]
      have "grows_under ?s1 ?s2 fl [d]"
        using st(1-4) by (auto simp: grows_under_def)
      with s1 have s2: "grows_under s ?s2 fl [d]"
        using grows_under_trans [of s ?s1 fl "[]" ?s2 "[d]"] by simp
      show ?thesis
      proof (cases "fst (file_new ?s1 (Some fl) d)")
        case None
        with nodot sb s2 show ?thesis by simp
      next
        case (Some f)
        with st(5) have f: "f \<in> live ?s2" "f \<notin> live s" "child_names (brk ?s2) ?s2 f = []"
          by simp_all
        have "grows_under ?s2 (file_load ?s2 f (path @ ''/'' @ d) sub) f (node_names sub)"
          using nodot sb Some st(1) f(1) host_sub f(3) by (intro "4.IH"(1)) simp_all
        from grows_under_child [OF s2 this f(2) fl] nodot sb Some show ?thesis by simp
      qed
    qed
  qed
  have inv_mid: "tree_inv ?mid" and fl_mid: "fl \<in> live ?mid"
    using mid fl by (auto simp: grows_under_def)
  have "set (child_names (brk ?mid) ?mid fl) \<subseteq> set (child_names (brk s) s fl) \<union> set ?ns"
    using mid by (simp add: grows_under_def)
  moreover have "set (entry_names es) \<inter> set ?ns = {}"
    using host by (auto simp: entry_names_Cons split: if_splits)
  moreover have "set (entry_names es) \<inter> set (child_names (brk s) s fl) = {}"
    using dis by (auto simp: entry_names_Cons split: if_splits)
  ultimately have dis_mid: "set (entry_names es) \<inter> set (child_names (brk ?mid) ?mid fl) = {}"
    by blast
  have "grows_under ?mid (file_load_entries ?mid fl path es) fl (entry_names es)"
    using inv_mid fl_mid host_es dis_mid by (rule "4.IH"(2))
  from grows_under_trans [OF mid this]
  have "grows_under s (file_load_entries ?mid fl path es) fl (?ns @ entry_names es)" .
  moreover have "?ns @ entry_names es = entry_names ((d, sub) # es)"
    by (simp add: entry_names_Cons)
  ultimately show ?case by simp
qed

text \<open>
  Claim C8, as the code has it. \<open>file_new\<close> takes the name it is given and puts
  the node in front of the parent's children without looking at them, and
  \<open>file_load\<close> calls it for every directory entry. The invariants of a well-formed
  tree (sibling names pairwise distinct, no \<open>/\<close> in a name, a root without parent
  and with the empty name) are kept by \<open>file_new\<close> when the name has no \<open>/\<close> and
  is not the name of a child the parent has already, the parent being a live
  node or \<open>NULL\<close>; and by \<open>file_load\<close> when the host's directories list, apart
  from \<open>.\<close> and \<open>..\<close>, names without \<open>/\<close> that are pairwise distinct, none of them
  the name of a child the node loaded into has already. Allocations may fail at
  any point: the entry is then skipped.
\<close>

theorem file_new_file_load_invariants:
  "(tree_inv s
      \<and> (case par of None \<Rightarrow> True
          | Some p \<Rightarrow> p \<in> live s \<and> name \<notin> set (child_names (brk s) s p))
      \<and> CHR ''/'' \<notin> set name
    \<longrightarrow> tree_inv (snd (file_new s par name)))
   \<and> (tree_inv s \<and> fl \<in> live s \<and> host_ok node
        \<and> set (node_names node) \<inter> set (child_names (brk s) s fl) = {}
      \<longrightarrow> tree_inv (file_load s fl path node))"
proof (intro conjI impI)
  assume "tree_inv s
      \<and> (case par of None \<Rightarrow> True
          | Some p \<Rightarrow> p \<in> live s \<and> name \<notin> set (child_names (brk s) s p))
      \<and> CHR ''/'' \<notin> set name"
  then show "tree_inv (snd (file_new s par name))" by (intro file_new_tree_inv) simp_all
next
  assume "tree_inv s \<and> fl \<in> live s \<and> host_ok node
        \<and> set (node_names node) \<inter> set (child_names (brk s) s fl) = {}"
  then have "grows_under s (file_load s fl path node) fl (node_names node)"
    by (intro file_load_grows) simp_all
  then show "tree_inv (file_load s fl path node)" by (simp add: grows_under_def)
qed

lemmas tree_eval = tree_inv_def fs_ok_def node_ok_def sibling_names_unique_def
  names_without_slash_def root_ok_def child_names_def children_of_def

lemma fs12_eval:
  "tree_inv fs1" "1 \<in> live fs1"
  "set (node_names host_tree) \<inter> set (child_names (brk fs1) fs1 1) = {}"
  "tree_inv fs2" "1 \<in> live fs2" "''b'' \<notin> set (child_names (brk fs2) fs2 1)"
  by (simp_all add: tree_eval fs_eval)

text \<open>
  Claim C8 as stated fails: a second child named \<open>a\<close>, or a name with a \<open>/\<close>, is
  accepted by \<open>file_new\<close>, and \<open>file_load\<close> adds an entry \<open>a\<close> to a node that has a
  child \<open>a\<close>.
\<close>

theorem file_new_file_load_invariants_counterexample:
  "tree_inv fs2
   \<and> \<not> sibling_names_unique (snd (file_new fs2 (Some 1) ''a''))
   \<and> \<not> names_without_slash (snd (file_new fs2 (Some 1) ''x/y''))
   \<and> \<not> sibling_names_unique (file_load fs2 1 ''/srv/mud'' (Host_dir [(''a'', Host_file)]))"
  by (simp add: tree_eval fs_eval stringbuilder_get_def)

lemma host_tree_ok: "host_ok host_tree"
  by (simp add: host_tree_def entry_names_def)

theorem file_new_file_load_invariants_witness:
  "tree_inv fs2 \<and> 1 \<in> live fs2 \<and> ''b'' \<notin> set (child_names (brk fs2) fs2 1)
   \<and> CHR ''/'' \<notin> set ''b''
   \<and> tree_inv (snd (file_new fs2 (Some 1) ''b''))
   \<and> tree_inv fs1 \<and> 1 \<in> live fs1 \<and> host_ok host_tree
   \<and> set (node_names host_tree) \<inter> set (child_names (brk fs1) fs1 1) = {}
   \<and> tree_inv (file_load fs1 1 ''/srv/mud'' host_tree)"
proof -
  have n: "CHR ''/'' \<notin> set ''b''" by simp
  have a: "tree_inv fs2
      \<and> (case Some 1 of None \<Rightarrow> True
          | Some p \<Rightarrow> p \<in> live fs2 \<and> ''b'' \<notin> set (child_names (brk fs2) fs2 p))
      \<and> CHR ''/'' \<notin> set ''b''"
    using fs12_eval(4,5,6) n by (simp only: option.case simp_thms)
  have b: "tree_inv fs1 \<and> 1 \<in> live fs1 \<and> host_ok host_tree
        \<and> set (node_names host_tree) \<inter> set (child_names (brk fs1) fs1 1) = {}"
    using fs12_eval(1,2,3) host_tree_ok by (intro conjI)
  note T = file_new_file_load_invariants
  from T [where s = fs2 and par = "Some 1" and name = "''b''", THEN conjunct1, THEN mp, OF a]
  have c: "tree_inv (snd (file_new fs2 (Some 1) ''b''))" .
  from T [where s = fs1 and fl = 1 and node = host_tree and path = "''/srv/mud''",
          THEN conjunct2, THEN mp, OF b]
  have d: "tree_inv (file_load fs1 1 ''/srv/mud'' host_tree)" .
  from fs12_eval(4,5,6) n c fs12_eval(1,2) host_tree_ok fs12_eval(3) d
  show ?thesis by (intro conjI)
qed

end
